theory Spec2Isabelle
  imports Main "HOL-Library.Sublist" "HOL-Library.Multiset" "HOL-Library.List_Lexorder"
    "HOL-Library.Char_ord" "HOL-Library.Word" "HOL-Library.AList"
begin

chapter \<open>The notebooks' data pipeline: model\<close>

text \<open>
  The two notebooks are straight-line Python over pandas and networkx. Each operation
  is embedded as a function on the values it reads and returns; a place where the
  Python can raise is a branch returning \<open>Inl\<close> of the error.
\<close>

datatype py_error = ValueError | UnicodeDecodeError | TypeError

section \<open>Cohort assigner\<close>

text \<open>
  \<^verbatim>\<open>
  cohorts = [("Cohort 1", "2020-11-01", "2021-02-28"), ...]

  def assign_cohort(date):
      if pd.isnull(date): return "Unassigned"
      for label, start, end in cohorts:
          if pd.to_datetime(start) <= date <= pd.to_datetime(end):
              return label
      return "Unassigned"
  \<close>
  The argument is an element of the \<open>start_date\<close> column, which
  \<open>pd.to_datetime(..., errors="coerce")\<close> produced: a \<open>Timestamp\<close>, or
  \<open>NaT\<close> where the text did not parse. \<open>NaT\<close> is \<open>None\<close>. The
  \<open>Timestamp\<close> is time-zone-naive when the text of \<open>period_start\<close> has no UTC
  offset and time-zone-aware when it has one.

  A \<open>Timestamp\<close> is an instant, given by a calendar date and the nanoseconds elapsed
  since midnight of that date, and its zone \<open>ts_tz\<close>: \<open>None\<close> for a naive
  timestamp, the UTC offset in minutes for an aware one. The calendar fields are the
  wall-clock reading of a naive timestamp and the UTC reading of an aware one, as pandas
  stores them. Chronological order is the lexicographic order of (year, month, day,
  nanoseconds).
\<close>

datatype timestamp =
  Timestamp (ts_year: nat) (ts_month: nat) (ts_day: nat) (ts_nanos: nat) (ts_tz: "int option")

fun ts_le :: "timestamp \<Rightarrow> timestamp \<Rightarrow> bool" where
  "ts_le (Timestamp y1 m1 d1 n1 z1) (Timestamp y2 m2 d2 n2 z2) =
     (y1 < y2 \<or> (y1 = y2 \<and> (m1 < m2 \<or> (m1 = m2 \<and> (d1 < d2 \<or> (d1 = d2 \<and> n1 \<le> n2))))))"

text \<open>
  The operator \<open><=\<close> of two timestamps: pandas compares two naive or two aware
  timestamps chronologically and raises \<open>TypeError\<close> when one is naive and the
  other aware.
\<close>

definition py_le :: "timestamp \<Rightarrow> timestamp \<Rightarrow> py_error + bool" where
  "py_le a b =
     (if (ts_tz a = None) = (ts_tz b = None) then Inr (ts_le a b) else Inl TypeError)"

text \<open>
  \<open>pd.to_datetime\<close> on one string, restricted to the form the source passes:
  \<open>YYYY-MM-DD\<close>, giving midnight of that day as a naive timestamp. A string that
  names no calendar day raises; so does, in this model, any other format.
\<close>

definition digit_val :: "char \<Rightarrow> nat option" where
  "digit_val c = map_of (zip ''0123456789'' [0, 1, 2, 3, 4, 5, 6, 7, 8, 9]) c"

fun digits_val :: "nat \<Rightarrow> string \<Rightarrow> nat option" where
  "digits_val acc [] = Some acc"
| "digits_val acc (c # cs) =
     (case digit_val c of None \<Rightarrow> None | Some v \<Rightarrow> digits_val (10 * acc + v) cs)"

definition is_leap :: "nat \<Rightarrow> bool" where
  "is_leap y = (y mod 4 = 0 \<and> (y mod 100 \<noteq> 0 \<or> y mod 400 = 0))"

definition days_in_month :: "nat \<Rightarrow> nat \<Rightarrow> nat" where
  "days_in_month y m =
     (if m = 2 then (if is_leap y then 29 else 28)
      else if m = 4 \<or> m = 6 \<or> m = 9 \<or> m = 11 then 30 else 31)"

definition to_datetime :: "string \<Rightarrow> py_error + timestamp" where
  "to_datetime s =
     (if length s = 10 \<and> s ! 4 = CHR ''-'' \<and> s ! 7 = CHR ''-'' then
        (case (digits_val 0 (take 4 s), digits_val 0 (take 2 (drop 5 s)),
               digits_val 0 (drop 8 s)) of
           (Some y, Some m, Some d) \<Rightarrow>
             if 1 \<le> m \<and> m \<le> 12 \<and> 1 \<le> d \<and> d \<le> days_in_month y m
             then Inr (Timestamp y m d 0 None) else Inl ValueError
         | _ \<Rightarrow> Inl ValueError)
      else Inl ValueError)"

type_synonym cohort = "string \<times> string \<times> string"

definition cohorts :: "cohort list" where
  "cohorts =
     [(''Cohort 1'', ''2020-11-01'', ''2021-02-28''),
      (''Cohort 2'', ''2021-03-01'', ''2021-06-30''),
      (''Cohort 3'', ''2021-07-01'', ''2021-10-31''),
      (''Cohort 4'', ''2021-11-01'', ''2022-02-28''),
      (''Cohort 5'', ''2022-03-01'', ''2022-06-30''),
      (''Cohort 6'', ''2022-07-01'', ''2022-10-31''),
      (''Cohort 7'', ''2022-11-01'', ''2023-02-28''),
      (''Cohort 8'', ''2023-03-01'', ''2023-06-30''),
      (''Cohort 9'', ''2023-07-01'', ''2023-10-31'')]"

text \<open>
  The \<open>for\<close> loop. Python evaluates the chained comparison left to right and stops at
  the first false link, so \<open>pd.to_datetime(end)\<close> runs only when the start is not
  after the date. An exception raised by a comparison leaves the function.
\<close>

fun scan_cohorts :: "cohort list \<Rightarrow> timestamp \<Rightarrow> py_error + string" where
  "scan_cohorts [] date = Inr ''Unassigned''"
| "scan_cohorts ((label, start, end) # rest) date =
     (case to_datetime start of
        Inl err \<Rightarrow> Inl err
      | Inr s \<Rightarrow>
          (case py_le s date of
             Inl err \<Rightarrow> Inl err
           | Inr after_start \<Rightarrow>
               if after_start then
                 (case to_datetime end of
                    Inl err \<Rightarrow> Inl err
                  | Inr e \<Rightarrow>
                      (case py_le date e of
                         Inl err \<Rightarrow> Inl err
                       | Inr before_end \<Rightarrow>
                           if before_end then Inr label else scan_cohorts rest date))
               else scan_cohorts rest date))"

text \<open>
  The function reads the global \<open>cohorts\<close>; \<open>assign_cohort_from\<close> is its body
  with the list it scans made explicit.
\<close>

definition assign_cohort_from :: "cohort list \<Rightarrow> timestamp option \<Rightarrow> py_error + string" where
  "assign_cohort_from cs date =
     (case date of None \<Rightarrow> Inr ''Unassigned'' | Some d \<Rightarrow> scan_cohorts cs d)"

definition assign_cohort :: "timestamp option \<Rightarrow> py_error + string" where
  "assign_cohort date = assign_cohort_from cohorts date"

text \<open>
  What the claims speak of: the inclusive window of an interval contains a date (both
  comparisons of the code hold); both ends of an interval parse; one interval ends
  strictly before another starts.
\<close>

definition window_contains :: "cohort \<Rightarrow> timestamp \<Rightarrow> bool" where
  "window_contains c date =
     (case (to_datetime (fst (snd c)), to_datetime (snd (snd c))) of
        (Inr s, Inr e) \<Rightarrow> py_le s date = Inr True \<and> py_le date e = Inr True
      | _ \<Rightarrow> False)"

definition parses :: "cohort \<Rightarrow> bool" where
  "parses c = (\<not> isl (to_datetime (fst (snd c))) \<and> \<not> isl (to_datetime (snd (snd c))))"

definition ends_before :: "cohort \<Rightarrow> cohort \<Rightarrow> bool" where
  "ends_before c c' =
     (case (to_datetime (snd (snd c)), to_datetime (fst (snd c'))) of
        (Inr e, Inr s') \<Rightarrow> \<not> ts_le s' e
      | _ \<Rightarrow> False)"

section \<open>Column normalizer\<close>

text \<open>
  Both notebooks rename the columns of every table with
  \<^verbatim>\<open>df.rename(columns=lambda x: x.replace(prefix, "").split("/")[-1], inplace=True)\<close>
  where \<open>prefix\<close> is \<open>https://sen.science/core/\<close> in one notebook and
  \<open>https://sen.science/doi/10.71728/r1rj-f947/\<close> in the other.

  \<open>str.replace(old, new)\<close> scans the string from the left and replaces every
  non-overlapping occurrence of \<open>old\<close>, wherever it stands; with an empty \<open>old\<close>
  it puts \<open>new\<close> before every character and at the end.
\<close>

function py_replace :: "string \<Rightarrow> string \<Rightarrow> string \<Rightarrow> string" where
  "py_replace old new [] = (if old = [] then new else [])"
| "py_replace old new (c # cs) =
     (if old = [] then new @ concat (map (\<lambda>x. x # new) (c # cs))
      else if prefix old (c # cs) then new @ py_replace old new (drop (length old) (c # cs))
      else c # py_replace old new cs)"
  by pat_completeness auto
termination
  by (relation "measure (\<lambda>(old, new, s). length s)") auto

text \<open>
  \<open>str.split(sep)\<close> for a one-character separator: the pieces between the
  separators, empty pieces kept. The result always has at least one piece, so
  indexing it with \<open>[-1]\<close> never raises and is \<open>last\<close>.
\<close>

fun split_on :: "char \<Rightarrow> string \<Rightarrow> string list" where
  "split_on sep [] = [[]]"
| "split_on sep (c # cs) =
     (if c = sep then [] # split_on sep cs
      else (case split_on sep cs of
              [] \<Rightarrow> [[c]]
            | seg # segs \<Rightarrow> (c # seg) # segs))"

definition prefix_core :: string where
  "prefix_core = ''https://sen.science/core/''"

definition prefix_doi :: string where
  "prefix_doi = ''https://sen.science/doi/10.71728/r1rj-f947/''"

definition rename_column :: "string \<Rightarrow> string \<Rightarrow> string" where
  "rename_column pre x = last (split_on CHR ''/'' (py_replace pre [] x))"

definition rename_columns :: "string \<Rightarrow> string list \<Rightarrow> string list" where
  "rename_columns pre cols = map (rename_column pre) cols"

definition known_prefixes :: "string list" where
  "known_prefixes = [prefix_core, prefix_doi]"

text \<open>
  The specification's wording of the same operation, for comparison with the code:
  remove the prefix when the name begins with it, then keep the last segment.
\<close>

definition strip_leading :: "string \<Rightarrow> string \<Rightarrow> string" where
  "strip_leading pre x = (if prefix pre x then drop (length pre) x else x)"

definition rename_column_spec :: "string \<Rightarrow> string \<Rightarrow> string" where
  "rename_column_spec pre x = last (split_on CHR ''/'' (strip_leading pre x))"

section \<open>Sorting by a count, as pandas does it\<close>

text \<open>
  \<open>DataFrame.sort_values(by=..., ascending=False)\<close> and the sort inside
  \<open>Series.value_counts()\<close> are called with the default \<open>kind="quicksort"\<close>, which
  pandas documents as not stable (only \<open>mergesort\<close> and \<open>stable\<close> are). The
  code therefore relies on no more than the contract of a descending sort: the result is
  a rearrangement of the rows, in descending order of the key. The routine is a
  parameter \<open>srt\<close> of every operation that sorts, constrained by \<open>sorts_descending\<close>.

  Two routines that meet the contract are used to run the model on concrete tables: one
  leaves rows with equal keys in their original order, the other reverses them.

  \<open>sort_values ties key\<close> is the sort by \<open>key\<close> with \<open>ascending=False\<close>
  written out: the rows in descending order of the key, where the order among rows of
  equal key is whatever the unstable routine makes of it. That freedom is the
  rearrangement \<open>ties\<close> of the rows, applied before a stable sort; every routine that
  meets the contract is of this form, and every rearrangement gives one.
\<close>

definition sorts_descending :: "('a \<Rightarrow> nat) \<Rightarrow> ('a list \<Rightarrow> 'a list) \<Rightarrow> bool" where
  "sorts_descending key srt =
     (\<forall>xs. mset (srt xs) = mset xs \<and> sorted_wrt (\<lambda>a b. key b \<le> key a) (srt xs))"

definition sort_desc_stable :: "('a \<Rightarrow> nat) \<Rightarrow> 'a list \<Rightarrow> 'a list" where
  "sort_desc_stable key xs = rev (sort_key key (rev xs))"

definition sort_desc_reversing :: "('a \<Rightarrow> nat) \<Rightarrow> 'a list \<Rightarrow> 'a list" where
  "sort_desc_reversing key xs = rev (sort_key key xs)"

definition rearranges :: "('a list \<Rightarrow> 'a list) \<Rightarrow> bool" where
  "rearranges ties = (\<forall>xs. mset (ties xs) = mset xs)"

definition sort_values :: "('a list \<Rightarrow> 'a list) \<Rightarrow> ('a \<Rightarrow> nat) \<Rightarrow> 'a list \<Rightarrow> 'a list" where
  "sort_values ties key xs = rev (sort_key key (ties xs))"

section \<open>Aggregator\<close>

text \<open>
  \<^verbatim>\<open>
  summary_stats = df.groupby('taxaname').agg({
      'parameter_value': ['mean', 'std', 'min', 'max', 'count']
  }).reset_index()
  summary_stats.columns = ['Taxa', 'Mean', 'Std', 'Min', 'Max', 'Count']
  summary_stats = summary_stats.sort_values(by='Count', ascending=False)
  \<close>
  A table row is read through its two columns \<open>taxaname\<close> and
  \<open>parameter_value\<close>; a missing entry (\<open>NaN\<close>, \<open>None\<close>) is \<open>None\<close>.
  The measured values are of any linearly ordered type. The columns \<open>Mean\<close> and
  \<open>Std\<close> are floating-point results and are left out of the summary row; \<open>Min\<close>
  and \<open>Max\<close> are the fields \<open>Min_value\<close> and \<open>Max_value\<close>.
\<close>

record 'v obs =
  taxaname :: "string option"
  parameter_value :: "'v option"

record 'v summary_row =
  Taxa :: string
  Min_value :: "'v option"
  Max_value :: "'v option"
  Count :: nat

text \<open>
  \<open>groupby\<close> with its defaults (\<open>sort=True\<close>, \<open>dropna=True\<close>): one group per
  distinct non-missing key, in ascending order of the key; rows whose key is missing
  belong to no group. \<open>min\<close>, \<open>max\<close> and \<open>count\<close> skip the missing values of
  the column; \<open>count\<close> is the number of values that are present.
\<close>

definition group_keys :: "('v, 'z) obs_scheme list \<Rightarrow> string list" where
  "group_keys df = sort (remdups (List.map_filter taxaname df))"

definition group_values :: "('v, 'z) obs_scheme list \<Rightarrow> string \<Rightarrow> 'v list" where
  "group_values df k = List.map_filter parameter_value (filter (\<lambda>r. taxaname r = Some k) df)"

definition agg_min :: "'v::linorder list \<Rightarrow> 'v option" where
  "agg_min vs = (case vs of [] \<Rightarrow> None | v # rest \<Rightarrow> Some (fold min rest v))"

definition agg_max :: "'v::linorder list \<Rightarrow> 'v option" where
  "agg_max vs = (case vs of [] \<Rightarrow> None | v # rest \<Rightarrow> Some (fold max rest v))"

definition agg_group :: "('v::linorder, 'z) obs_scheme list \<Rightarrow> string \<Rightarrow> 'v summary_row" where
  "agg_group df k =
     \<lparr>Taxa = k, Min_value = agg_min (group_values df k),
      Max_value = agg_max (group_values df k), Count = length (group_values df k)\<rparr>"

definition groupby_agg :: "('v::linorder, 'z) obs_scheme list \<Rightarrow> 'v summary_row list" where
  "groupby_agg df = map (agg_group df) (group_keys df)"

definition summary_stats ::
  "('v summary_row list \<Rightarrow> 'v summary_row list) \<Rightarrow> ('v::linorder, 'z) obs_scheme list \<Rightarrow> 'v summary_row list" where
  "summary_stats srt df = srt (groupby_agg df)"

section \<open>Network builder\<close>

text \<open>
  \<^verbatim>\<open>
  clinic_patient_counts = cohort_map['org_name'].value_counts().reset_index()
  clinic_patient_counts.columns = ['org_name', 'patient_count']
  top_clinics = clinic_patient_counts.head(10)['org_name'].tolist()
  cohort_map_top_clinics = cohort_map[cohort_map['org_name'].isin(top_clinics)].copy()
  G = nx.Graph()
  G.add_nodes_from(top_clinics, node_type='clinic')
  unique_patients = cohort_map_top_clinics['patient_id'].unique()
  G.add_nodes_from(unique_patients, node_type='patient')
  for index, row in cohort_map_top_clinics.iterrows():
      G.add_edge(row['patient_id'], row['org_name'])
  \<close>
  \<open>cohort_map\<close> is the left merge of the episode table with the patient table: one
  row per episode of care, carrying the patient's identifier (a string, after
  \<open>astype(str)\<close>) and the name of the patient's clinic, missing when the patient
  table has no such patient or no clinic. The other columns play no part in the graph;
  a row is any extension of \<open>cohort_row\<close>.
\<close>

record cohort_row =
  patient_id :: string
  org_name :: "string option"

text \<open>
  \<open>unique()\<close> keeps the first occurrence of each value, in order.
  \<open>value_counts()\<close> drops the missing entries, counts how often each value occurs in
  the column, and sorts the (value, count) pairs by descending count with the library's
  sort routine \<open>srt\<close>; before the sort the values stand in first-seen order.
\<close>

definition py_unique :: "'a list \<Rightarrow> 'a list" where
  "py_unique xs = rev (remdups (rev xs))"

definition value_counts ::
  "(('a \<times> nat) list \<Rightarrow> ('a \<times> nat) list) \<Rightarrow> 'a option list \<Rightarrow> ('a \<times> nat) list" where
  "value_counts srt col =
     (let present = List.map_filter id col
      in srt (map (\<lambda>v. (v, count_list present v)) (py_unique present)))"

definition clinic_patient_counts ::
  "((string \<times> nat) list \<Rightarrow> (string \<times> nat) list) \<Rightarrow> 'z cohort_row_scheme list \<Rightarrow> (string \<times> nat) list" where
  "clinic_patient_counts srt cohort_map = value_counts srt (map org_name cohort_map)"

definition top_clinics_head ::
  "nat \<Rightarrow> ((string \<times> nat) list \<Rightarrow> (string \<times> nat) list) \<Rightarrow> 'z cohort_row_scheme list \<Rightarrow> string list" where
  "top_clinics_head n srt cohort_map = map fst (take n (clinic_patient_counts srt cohort_map))"

definition top_clinics ::
  "((string \<times> nat) list \<Rightarrow> (string \<times> nat) list) \<Rightarrow> 'z cohort_row_scheme list \<Rightarrow> string list" where
  "top_clinics srt cohort_map = top_clinics_head 10 srt cohort_map"

definition cohort_map_top_clinics :: "string list \<Rightarrow> 'z cohort_row_scheme list \<Rightarrow> 'z cohort_row_scheme list" where
  "cohort_map_top_clinics clinics cohort_map =
     filter (\<lambda>r. case org_name r of None \<Rightarrow> False | Some c \<Rightarrow> c \<in> set clinics) cohort_map"

text \<open>
  An undirected \<open>networkx.Graph\<close>: the nodes in insertion order, each with its
  \<open>node_type\<close> attribute if it has one, and the edges, each stored once, as the pair
  of endpoints in the order of the call that created it. \<open>add_nodes_from\<close> sets the
  attribute of every listed node, whether the node is new or not. \<open>add_edge\<close> creates
  the endpoints that are missing, without attributes, and adds the edge unless the two
  nodes are joined already, in either direction.
\<close>

record graph =
  nodes :: "(string \<times> string option) list"
  edges :: "(string \<times> string) list"

definition empty_graph :: graph where
  "empty_graph = \<lparr>nodes = [], edges = []\<rparr>"

definition add_node :: "string \<Rightarrow> string \<Rightarrow> graph \<Rightarrow> graph" where
  "add_node t n g = g\<lparr>nodes := AList.update n (Some t) (nodes g)\<rparr>"

definition add_nodes_from :: "string list \<Rightarrow> string \<Rightarrow> graph \<Rightarrow> graph" where
  "add_nodes_from ns t g = fold (add_node t) ns g"

definition touch_node :: "string \<Rightarrow> graph \<Rightarrow> graph" where
  "touch_node n g =
     (if n \<in> fst ` set (nodes g) then g else g\<lparr>nodes := nodes g @ [(n, None)]\<rparr>)"

definition has_edge :: "graph \<Rightarrow> string \<Rightarrow> string \<Rightarrow> bool" where
  "has_edge g u v = ((u, v) \<in> set (edges g) \<or> (v, u) \<in> set (edges g))"

definition add_edge :: "string \<Rightarrow> string \<Rightarrow> graph \<Rightarrow> graph" where
  "add_edge u v g =
     (let g' = touch_node v (touch_node u g)
      in if has_edge g' u v then g' else g'\<lparr>edges := edges g' @ [(u, v)]\<rparr>)"

text \<open>
  The graph of the notebook. The number of clinics kept is the literal 10 in the
  source; \<open>build_graph_head\<close> has it as the argument of \<open>head\<close>. A selected row
  always has a clinic, since \<open>isin\<close> is false for a missing entry.
\<close>

definition add_row_edge :: "'z cohort_row_scheme \<Rightarrow> graph \<Rightarrow> graph" where
  "add_row_edge r g = (case org_name r of None \<Rightarrow> g | Some c \<Rightarrow> add_edge (patient_id r) c g)"

definition build_graph_head ::
  "nat \<Rightarrow> ((string \<times> nat) list \<Rightarrow> (string \<times> nat) list) \<Rightarrow> 'z cohort_row_scheme list \<Rightarrow> graph" where
  "build_graph_head n srt cohort_map =
     (let clinics = top_clinics_head n srt cohort_map;
          selected = cohort_map_top_clinics clinics cohort_map;
          g1 = add_nodes_from clinics ''clinic'' empty_graph;
          unique_patients = py_unique (map patient_id selected);
          g2 = add_nodes_from unique_patients ''patient'' g1
      in fold add_row_edge selected g2)"

definition build_graph ::
  "((string \<times> nat) list \<Rightarrow> (string \<times> nat) list) \<Rightarrow> 'z cohort_row_scheme list \<Rightarrow> graph" where
  "build_graph srt cohort_map = build_graph_head 10 srt cohort_map"

text \<open>
  What the plotting loop reads back: the type of a node, and for a clinic node the
  count shown in its label and used for its size,
  \<^verbatim>\<open>clinic_patient_counts[clinic_patient_counts['org_name'] == clinic_name]['patient_count'].iloc[0]\<close>.
\<close>

definition node_type :: "graph \<Rightarrow> string \<Rightarrow> string option" where
  "node_type g n = (case map_of (nodes g) n of None \<Rightarrow> None | Some a \<Rightarrow> a)"

definition patient_count ::
  "((string \<times> nat) list \<Rightarrow> (string \<times> nat) list) \<Rightarrow> 'z cohort_row_scheme list \<Rightarrow> string \<Rightarrow> nat option" where
  "patient_count srt cohort_map clinic_name = map_of (clinic_patient_counts srt cohort_map) clinic_name"

text \<open>
  For the statements: the number of distinct patients with a row at a clinic; the
  (patient, clinic) pairs of a list of rows; the two endpoints of an edge as a set; and
  tables to run the model on (\<open>visit p c\<close> is one row of patient \<open>p\<close> whose clinic
  is \<open>c\<close>).
\<close>

definition distinct_patients :: "'z cohort_row_scheme list \<Rightarrow> string \<Rightarrow> nat" where
  "distinct_patients cohort_map c =
     length (remdups (map patient_id (filter (\<lambda>r. org_name r = Some c) cohort_map)))"

definition row_pairs :: "'z cohort_row_scheme list \<Rightarrow> (string \<times> string) list" where
  "row_pairs rows = List.map_filter (\<lambda>r. map_option (Pair (patient_id r)) (org_name r)) rows"

definition endpoints :: "string \<times> string \<Rightarrow> string set" where
  "endpoints e = {fst e, snd e}"

definition visit :: "string \<Rightarrow> string \<Rightarrow> cohort_row" where
  "visit p c = \<lparr>patient_id = p, org_name = Some c\<rparr>"

definition eleven_clinics :: "cohort_row list" where
  "eleven_clinics =
     concat (map (\<lambda>c. [visit (c @ ''1'') c, visit (c @ ''2'') c])
               [''ca'', ''cb'', ''cc'', ''cd'', ''ce'', ''cf'', ''cg'', ''ch'', ''ci'', ''cj'']) @
     replicate 3 (visit ''p'' ''ck'')"

section \<open>Decoding byte-string values\<close>

text \<open>
  A value of a record is a byte string, a text (a sequence of code points) or any
  other Python object.
\<close>

type_synonym byte = "8 word"

datatype 'a cell = Bytes "byte list" | Text "nat list" | Other 'a

text \<open>
  \<open>bytes.decode(errors=...)\<close> with the default encoding UTF-8. One step reads the
  sequence that starts at the first byte: it yields a code point and the number of bytes
  read, or no code point and the number of bytes the error covers, as CPython's decoder
  reports it (an invalid start byte covers itself; an invalid or missing continuation
  byte covers the bytes before it; overlong forms, surrogates and code points above
  U+10FFFF are invalid).
\<close>

datatype errors = Strict | Ignore

definition is_continuation :: "byte \<Rightarrow> bool" where
  "is_continuation b = (0x80 \<le> b \<and> b \<le> 0xBF)"

definition tail_bits :: "byte \<Rightarrow> nat" where
  "tail_bits b = unat b - 0x80"

fun utf8_step :: "byte \<Rightarrow> byte list \<Rightarrow> nat option \<times> nat" where
  "utf8_step b bs =
     (if b < 0x80 then (Some (unat b), 1)
      else if b < 0xC2 then (None, 1)
      else if b < 0xE0 then
        (case bs of
           [] \<Rightarrow> (None, 1)
         | b2 # _ \<Rightarrow>
             if is_continuation b2 then (Some ((unat b - 0xC0) * 64 + tail_bits b2), 2)
             else (None, 1))
      else if b < 0xF0 then
        (case bs of
           [] \<Rightarrow> (None, 1)
         | b2 # bs2 \<Rightarrow>
             if \<not> is_continuation b2 \<or> (b = 0xE0 \<and> b2 < 0xA0) \<or> (b = 0xED \<and> 0xA0 \<le> b2)
             then (None, 1)
             else
               (case bs2 of
                  [] \<Rightarrow> (None, 2)
                | b3 # _ \<Rightarrow>
                    if is_continuation b3
                    then (Some (((unat b - 0xE0) * 64 + tail_bits b2) * 64 + tail_bits b3), 3)
                    else (None, 2)))
      else if b < 0xF5 then
        (case bs of
           [] \<Rightarrow> (None, 1)
         | b2 # bs2 \<Rightarrow>
             if \<not> is_continuation b2 \<or> (b = 0xF0 \<and> b2 < 0x90) \<or> (b = 0xF4 \<and> 0x90 \<le> b2)
             then (None, 1)
             else
               (case bs2 of
                  [] \<Rightarrow> (None, 2)
                | b3 # bs3 \<Rightarrow>
                    if \<not> is_continuation b3 then (None, 2)
                    else
                      (case bs3 of
                         [] \<Rightarrow> (None, 3)
                       | b4 # _ \<Rightarrow>
                           if is_continuation b4
                           then (Some ((((unat b - 0xF0) * 64 + tail_bits b2) * 64
                                         + tail_bits b3) * 64 + tail_bits b4), 4)
                           else (None, 3))))
      else (None, 1))"

text \<open>
  With \<open>errors="strict"\<close>, the default, an error raises \<open>UnicodeDecodeError\<close>; with
  \<open>errors="ignore"\<close> the bytes the error covers are dropped and decoding goes on
  behind them. A step reads at least the first byte.
\<close>

fun utf8_decode :: "errors \<Rightarrow> byte list \<Rightarrow> py_error + nat list" where
  "utf8_decode mode [] = Inr []"
| "utf8_decode mode (b # bs) =
     (case utf8_step b bs of
        (Some cp, k) \<Rightarrow>
          (case utf8_decode mode (drop (k - 1) bs) of
             Inl err \<Rightarrow> Inl err
           | Inr cps \<Rightarrow> Inr (cp # cps))
      | (None, k) \<Rightarrow>
          (case mode of
             Strict \<Rightarrow> Inl UnicodeDecodeError
           | Ignore \<Rightarrow> utf8_decode mode (drop (k - 1) bs)))"

text \<open>
  The cell decodes three columns (\<open>patient_reference\<close>, \<open>period_start\<close>,
  \<open>identifier_value\<close>) with
  \<^verbatim>\<open>lambda x: x.decode() if isinstance(x, bytes) else x\<close>
  and two columns (\<open>birthDate\<close>, \<open>contact_organization_display\<close>) with
  \<^verbatim>\<open>
  def decode_if_bytes(val):
      if isinstance(val, bytes):
          return val.decode(errors="ignore")
      return val
  \<close>
\<close>

definition decode_lambda :: "'a cell \<Rightarrow> py_error + 'a cell" where
  "decode_lambda x =
     (case x of
        Bytes bs \<Rightarrow> (case utf8_decode Strict bs of Inl err \<Rightarrow> Inl err | Inr s \<Rightarrow> Inr (Text s))
      | _ \<Rightarrow> Inr x)"

definition decode_if_bytes :: "'a cell \<Rightarrow> py_error + 'a cell" where
  "decode_if_bytes val =
     (case val of
        Bytes bs \<Rightarrow> (case utf8_decode Ignore bs of Inl err \<Rightarrow> Inl err | Inr s \<Rightarrow> Inr (Text s))
      | _ \<Rightarrow> Inr val)"

text \<open>
  \<open>Series.apply\<close> calls the function on every element in turn; an exception in one
  call ends the whole statement.
\<close>

fun series_apply :: "('a \<Rightarrow> py_error + 'b) \<Rightarrow> 'a list \<Rightarrow> py_error + 'b list" where
  "series_apply f [] = Inr []"
| "series_apply f (x # xs) =
     (case f x of
        Inl err \<Rightarrow> Inl err
      | Inr y \<Rightarrow> (case series_apply f xs of Inl err \<Rightarrow> Inl err | Inr ys \<Rightarrow> Inr (y # ys)))"

chapter \<open>The notebooks' data pipeline: properties\<close>

section \<open>Cohort assigner: properties\<close>

lemmas to_datetime_eval = to_datetime_def digit_val_def days_in_month_def is_leap_def

lemma to_datetime_naive: "to_datetime s = Inr t \<Longrightarrow> ts_tz t = None"
  by (auto simp: to_datetime_def split: if_splits option.splits)

lemma py_le_naive: "ts_tz a = None \<Longrightarrow> ts_tz b = None \<Longrightarrow> py_le a b = Inr (ts_le a b)"
  by (simp add: py_le_def)

lemma py_le_mixed:
  "ts_tz a = None \<Longrightarrow> ts_tz b \<noteq> None \<Longrightarrow> py_le a b = Inl TypeError \<and> py_le b a = Inl TypeError"
  by (simp add: py_le_def)

lemma py_le_TrueD: "py_le a b = Inr True \<Longrightarrow> ts_le a b"
  by (simp add: py_le_def split: if_splits)

lemma scan_cohorts_find:
  "list_all parses cs \<Longrightarrow> ts_tz d = None \<Longrightarrow>
   scan_cohorts cs d =
     Inr (case find (\<lambda>c. window_contains c d) cs of None \<Rightarrow> ''Unassigned'' | Some c \<Rightarrow> fst c)"
proof (induction cs)
  case Nil
  then show ?case by simp
next
  case (Cons c cs)
  obtain l s e where c: "c = (l, s, e)" by (cases c) auto
  from Cons.prems obtain ts te where p: "to_datetime s = Inr ts" "to_datetime e = Inr te"
    by (cases "to_datetime s"; cases "to_datetime e") (auto simp: parses_def c)
  from p have n: "ts_tz ts = None" "ts_tz te = None" by (auto dest: to_datetime_naive)
  from Cons show ?case
    by (simp add: c p window_contains_def py_le_naive n)
qed

lemma scan_cohorts_aware:
  assumes "list_all parses cs" "cs \<noteq> []" "ts_tz d \<noteq> None"
  shows "scan_cohorts cs d = Inl TypeError"
proof -
  from assms(2) obtain c rest where cs: "cs = c # rest" by (cases cs) auto
  obtain l s e where c: "c = (l, s, e)" by (cases c) auto
  from assms(1) obtain ts where p: "to_datetime s = Inr ts"
    by (cases "to_datetime s") (auto simp: parses_def c cs)
  from p have "ts_tz ts = None" by (rule to_datetime_naive)
  with assms(3) have "py_le ts d = Inl TypeError" by (simp add: py_le_mixed)
  then show ?thesis by (simp add: cs c p)
qed

lemma window_contains_naive: "window_contains c d \<Longrightarrow> ts_tz d = None"
  by (auto simp: window_contains_def py_le_def split: sum.splits if_splits dest: to_datetime_naive)

lemma cohorts_parse: "list_all parses cohorts"
  by (simp add: cohorts_def parses_def to_datetime_eval)

lemma ts_le_trans: "ts_le a b \<Longrightarrow> ts_le b c \<Longrightarrow> ts_le a c"
  by (cases a; cases b; cases c) auto

lemma ends_before_disjoint:
  "ends_before c c' \<Longrightarrow> \<not> (window_contains c d \<and> window_contains c' d)"
  by (auto simp: ends_before_def window_contains_def split: sum.splits
      dest!: py_le_TrueD dest: ts_le_trans)

lemma cohorts_chain: "sorted_wrt ends_before cohorts"
  by (simp add: cohorts_def ends_before_def to_datetime_eval)

lemma filter_chain_le1:
  "sorted_wrt R xs \<Longrightarrow> (\<And>x y. R x y \<Longrightarrow> \<not> (P x \<and> P y)) \<Longrightarrow> length (filter P xs) \<le> 1"
proof (induction xs)
  case Nil
  then show ?case by simp
next
  case (Cons x xs)
  show ?case
  proof (cases "P x")
    case True
    with Cons.prems have "\<forall>y\<in>set xs. \<not> P y" by auto
    then have "filter P xs = []" by (simp add: filter_empty_conv)
    with True show ?thesis by simp
  next
    case False
    with Cons show ?thesis by simp
  qed
qed

lemma sorted_wrt_either:
  "sorted_wrt R xs \<Longrightarrow> x \<in> set xs \<Longrightarrow> y \<in> set xs \<Longrightarrow> x \<noteq> y \<Longrightarrow> R x y \<or> R y x"
  by (induction xs) auto

lemma find_same_set:
  assumes uniq: "\<And>x y. x \<in> set xs \<Longrightarrow> y \<in> set xs \<Longrightarrow> P x \<Longrightarrow> P y \<Longrightarrow> x = y"
    and eq: "set ys = set xs"
  shows "find P ys = find P xs"
proof (cases "find P xs")
  case None
  then have "\<not> (\<exists>x. x \<in> set xs \<and> P x)" by (simp add: find_None_iff)
  with eq have "find P ys = None" by (simp add: find_None_iff)
  with None show ?thesis by simp
next
  case (Some x)
  then have x: "x \<in> set xs" "P x" by (auto simp: find_Some_iff)
  then have "find P ys \<noteq> None" using eq by (auto simp: find_None_iff)
  then obtain y where y: "find P ys = Some y" by auto
  then have "y \<in> set ys" "P y" by (auto simp: find_Some_iff)
  with x uniq eq have "y = x" by auto
  with y Some show ?thesis by simp
qed




text \<open>
  Claim C9. The nine declared intervals are pairwise non-overlapping: every date lies
  in the window of at most one of them, so the result of the first-match scan is the
  same for every reordering of the list.
\<close>

theorem cohorts_non_overlapping:
  "length (filter (\<lambda>c. window_contains c d) cohorts) \<le> 1 \<and>
   (\<forall>cs. mset cs = mset cohorts \<longrightarrow>
      assign_cohort_from cs (Some d) = assign_cohort (Some d))"
proof -
  have one: "length (filter (\<lambda>c. window_contains c d) cohorts) \<le> 1"
    by (rule filter_chain_le1 [OF cohorts_chain]) (rule ends_before_disjoint)
  have uniq: "x = y" if "x \<in> set cohorts" "y \<in> set cohorts"
    "window_contains x d" "window_contains y d" for x y
    using sorted_wrt_either [OF cohorts_chain that(1,2)] that(3,4)
      ends_before_disjoint [of x y d] ends_before_disjoint [of y x d] by blast
  have ne: "cohorts \<noteq> []" by (simp add: cohorts_def)
  have perm: "assign_cohort_from cs (Some d) = assign_cohort (Some d)"
    if "mset cs = mset cohorts" for cs
  proof -
    from that have s: "set cs = set cohorts" by (rule mset_eq_setD)
    with cohorts_parse have p: "list_all parses cs" by (simp add: list_all_iff)
    from s ne have cne: "cs \<noteq> []" by auto
    show ?thesis
    proof (cases "ts_tz d")
      case None
      have "find (\<lambda>c. window_contains c d) cs = find (\<lambda>c. window_contains c d) cohorts"
        by (rule find_same_set [OF _ s]) (rule uniq)
      then show ?thesis
        by (simp add: assign_cohort_def assign_cohort_from_def
            scan_cohorts_find [OF p None] scan_cohorts_find [OF cohorts_parse None])
    next
      case (Some z)
      then have aw: "ts_tz d \<noteq> None" by simp
      show ?thesis
        by (simp add: assign_cohort_def assign_cohort_from_def
            scan_cohorts_aware [OF p cne aw] scan_cohorts_aware [OF cohorts_parse ne aw])
    qed
  qed
  from one perm show ?thesis by blast
qed

theorem cohorts_non_overlapping_witness:
  "mset (rev cohorts) = mset cohorts \<and>
   length (filter (\<lambda>c. window_contains c (Timestamp 2021 3 1 0 None)) cohorts) \<le> 1 \<and>
   assign_cohort_from (rev cohorts) (Some (Timestamp 2021 3 1 0 None)) = Inr ''Cohort 2'' \<and>
   assign_cohort (Some (Timestamp 2021 3 1 0 None)) = Inr ''Cohort 2''"
proof -
  have m: "mset (rev cohorts) = mset cohorts" by simp
  have e: "assign_cohort (Some (Timestamp 2021 3 1 0 None)) = Inr ''Cohort 2''"
    by (simp add: assign_cohort_def assign_cohort_from_def cohorts_def to_datetime_eval py_le_def)
  from cohorts_non_overlapping [of "Timestamp 2021 3 1 0 None"] m e show ?thesis by auto
qed

section \<open>Column normalizer: properties\<close>

lemma split_on_nonempty: "split_on sep s \<noteq> []"
  by (induction s) (auto split: list.splits)

lemma last_split_on_no_sep: "sep \<notin> set (last (split_on sep s))"
  by (induction s) (auto simp: split_on_nonempty split: list.splits)

lemma split_on_no_sep: "sep \<notin> set s \<Longrightarrow> split_on sep s = [s]"
  by (induction s) auto

lemma py_replace_absent:
  "old \<noteq> [] \<Longrightarrow> \<not> sublist old s \<Longrightarrow> py_replace old new s = s"
proof (induction s)
  case Nil
  then show ?case by simp
next
  case (Cons c cs)
  from Cons.prems have np: "\<not> prefix old (c # cs)"
    using prefix_imp_sublist by blast
  from Cons.prems have "\<not> sublist old cs"
    by (auto simp: sublist_Cons_right)
  with Cons np show ?case by simp
qed

lemma sublist_has_char: "c \<in> set old \<Longrightarrow> c \<notin> set s \<Longrightarrow> \<not> sublist old s"
  using set_mono_sublist by fastforce

lemma py_replace_leading:
  "old \<noteq> [] \<Longrightarrow> py_replace old new (old @ s) = new @ py_replace old new s"
  by (cases old) auto

lemma py_replace_first:
  "old \<noteq> [] \<Longrightarrow> \<not> sublist old (ys @ butlast old) \<Longrightarrow>
   py_replace old new (ys @ old @ zs) = ys @ new @ py_replace old new zs"
proof (induction ys)
  case Nil
  then show ?case by (simp add: py_replace_leading)
next
  case (Cons y ys)
  have np: "\<not> prefix old (y # ys @ old @ zs)"
  proof
    assume p: "prefix old (y # ys @ old @ zs)"
    have "length old \<le> length (y # ys @ butlast old)" by simp
    moreover have "(y # ys @ old @ zs) = (y # ys @ butlast old) @ (last old # zs)"
      using Cons.prems(1) by (simp add: append_butlast_last_id [symmetric] del: append_butlast_last_id)
    ultimately have "prefix old (y # ys @ butlast old)"
      using p by (metis prefix_length_prefix prefix_append prefix_order.dual_order.refl prefix_same_cases)
    then show False using Cons.prems(2) prefix_imp_sublist by fastforce
  qed
  from Cons.prems have "\<not> sublist old (ys @ butlast old)"
    by (auto simp: sublist_Cons_right)
  with Cons np show ?case by simp
qed

lemma rename_column_idem:
  "CHR ''/'' \<in> set pre \<Longrightarrow> rename_column pre (rename_column pre x) = rename_column pre x"
proof -
  assume s: "CHR ''/'' \<in> set pre"
  let ?y = "rename_column pre x"
  have n: "CHR ''/'' \<notin> set ?y" by (simp add: rename_column_def last_split_on_no_sep)
  from s have "pre \<noteq> []" by auto
  with s n have "py_replace pre [] ?y = ?y"
    by (intro py_replace_absent sublist_has_char [of "CHR ''/''"])
  with n show ?thesis
    using rename_column_def split_on_no_sep by (metis last.simps)
qed

lemma slash_in_known: "pre \<in> set known_prefixes \<Longrightarrow> CHR ''/'' \<in> set pre"
  by (auto simp: known_prefixes_def prefix_core_def prefix_doi_def)

lemma sublist_tl_cases:
  "pre \<noteq> [] \<Longrightarrow> sublist pre x \<longleftrightarrow> prefix pre x \<or> sublist pre (tl x)"
  by (cases x; cases pre) (auto simp: sublist_Cons_right)

lemma tl_pre: "pre \<noteq> [] \<Longrightarrow> tl (pre @ rest) = tl pre @ rest"
  by (cases pre) simp_all

lemma sublist_rest_tl: "pre \<noteq> [] \<Longrightarrow> sublist pre rest \<Longrightarrow> sublist pre (tl (pre @ rest))"
proof -
  assume ne: "pre \<noteq> []" and s: "sublist pre rest"
  from s obtain ps ss where "rest = ps @ pre @ ss" by (auto simp: sublist_def)
  then have "tl pre @ rest = (tl pre @ ps) @ pre @ ss" by simp
  then have "sublist pre (tl pre @ rest)" unfolding sublist_def by blast
  with ne show ?thesis by (simp add: tl_pre)
qed

lemma rename_column_as_spec:
  assumes ne: "pre \<noteq> []" and inner: "\<not> sublist pre (tl x)"
  shows "rename_column pre x = rename_column_spec pre x"
proof (cases "prefix pre x")
  case True
  then obtain rest where x: "x = pre @ rest" by (auto elim: prefixE)
  have nr: "\<not> sublist pre rest"
    using inner sublist_rest_tl [OF ne, of rest] unfolding x by blast
  have l: "rename_column pre x = last (split_on CHR ''/'' rest)"
    unfolding x rename_column_def py_replace_leading [OF ne] py_replace_absent [OF ne nr]
    by simp
  have r: "rename_column_spec pre x = last (split_on CHR ''/'' rest)"
    unfolding x rename_column_spec_def strip_leading_def by simp
  from l r show ?thesis by simp
next
  case False
  with inner have nx: "\<not> sublist pre x" using sublist_tl_cases [OF ne, of x] by blast
  have l: "rename_column pre x = last (split_on CHR ''/'' x)"
    unfolding rename_column_def py_replace_absent [OF ne nx] ..
  have r: "rename_column_spec pre x = last (split_on CHR ''/'' x)"
    unfolding rename_column_spec_def strip_leading_def using False by simp
  from l r show ?thesis by simp
qed

text \<open>
  Claim C5. Column-name normalization is idempotent: for every column name, and so for
  every name that begins with the prefix, renaming twice gives what renaming once gives.
  This holds for both prefixes of the notebooks, for a single name and for a whole list
  of column names.
\<close>

theorem rename_column_idempotent:
  "rename_column prefix_core (rename_column prefix_core x) = rename_column prefix_core x \<and>
   rename_column prefix_doi (rename_column prefix_doi x) = rename_column prefix_doi x \<and>
   rename_columns prefix_core (rename_columns prefix_core cols) = rename_columns prefix_core cols \<and>
   rename_columns prefix_doi (rename_columns prefix_doi cols) = rename_columns prefix_doi cols"
proof -
  have c: "CHR ''/'' \<in> set prefix_core" by (simp add: prefix_core_def)
  have d: "CHR ''/'' \<in> set prefix_doi" by (simp add: prefix_doi_def)
  show ?thesis
    by (simp add: rename_columns_def rename_column_idem [OF c] rename_column_idem [OF d])
qed

text \<open>
  Claim C6 as stated says that the prefix is removed when the name has it, and that a
  name without the prefix is mapped to the last segment of the unmodified string. The
  name \<open>xhttps://sen.science/core/b\<close> does not begin with the prefix and its last
  segment is \<open>b\<close>, yet the code returns \<open>xb\<close>: \<open>replace\<close> deletes the
  prefix string in the middle of the name too.
\<close>

theorem rename_column_inner_occurrence:
  "\<not> prefix prefix_core ''xhttps://sen.science/core/b'' \<and>
   last (split_on CHR ''/'' ''xhttps://sen.science/core/b'') = ''b'' \<and>
   rename_column_spec prefix_core ''xhttps://sen.science/core/b'' = ''b'' \<and>
   rename_column prefix_core ''xhttps://sen.science/core/b'' = ''xb''"
  by (simp add: rename_column_def rename_column_spec_def strip_leading_def prefix_core_def)

text \<open>
  Claim C6, amended. For every raw column name the normalizer deletes the occurrences of
  the prefix string wherever they stand, scanning from the left (the leftmost occurrence
  is deleted and the scan goes on behind it), and keeps the last segment of what is
  left. A leading prefix is always removed. Whenever the prefix string occurs in the
  name nowhere except possibly at its very start, the result is what the specification's
  wording gives: the last segment of the name without its prefix, or of the unmodified
  name when it has none. A name without a slash, such as an already normalized one, is
  returned unchanged.
\<close>

theorem rename_column_removes_prefix:
  assumes "pre \<in> set known_prefixes"
  shows "rename_column pre x = last (split_on CHR ''/'' (py_replace pre [] x)) \<and>
         rename_column pre (pre @ rest) = last (split_on CHR ''/'' (py_replace pre [] rest)) \<and>
         (\<not> sublist pre rest \<longrightarrow>
            rename_column pre (pre @ rest) = last (split_on CHR ''/'' rest)) \<and>
         (\<not> sublist pre x \<longrightarrow> rename_column pre x = last (split_on CHR ''/'' x)) \<and>
         (CHR ''/'' \<notin> set x \<longrightarrow> rename_column pre x = x) \<and>
         (\<not> sublist pre (tl x) \<longrightarrow> rename_column pre x = rename_column_spec pre x) \<and>
         (\<not> sublist pre (ys @ butlast pre) \<longrightarrow>
            py_replace pre [] (ys @ pre @ zs) = ys @ py_replace pre [] zs)"
proof -
  from assms have s: "CHR ''/'' \<in> set pre" by (rule slash_in_known)
  then have ne: "pre \<noteq> []" by auto
  have a: "py_replace pre [] (ys @ pre @ zs) = ys @ py_replace pre [] zs"
    if "\<not> sublist pre (ys @ butlast pre)"
    using py_replace_first [OF ne that, of "[]" zs] by simp
  have l: "rename_column pre (pre @ rest) = last (split_on CHR ''/'' (py_replace pre [] rest))"
    by (simp add: rename_column_def py_replace_leading [OF ne])
  have b: "rename_column pre (pre @ rest) = last (split_on CHR ''/'' rest)"
    if "\<not> sublist pre rest"
    by (simp add: l py_replace_absent [OF ne that])
  have c: "rename_column pre x = last (split_on CHR ''/'' x)" if "\<not> sublist pre x"
    by (simp add: rename_column_def py_replace_absent [OF ne that])
  have d: "rename_column pre x = x" if "CHR ''/'' \<notin> set x"
    using that s
    by (simp add: rename_column_def py_replace_absent [OF ne sublist_has_char [OF s that]]
        split_on_no_sep)
  have e: "rename_column pre x = rename_column_spec pre x" if "\<not> sublist pre (tl x)"
    using ne that by (rule rename_column_as_spec)
  from a l b c d e show ?thesis by (simp add: rename_column_def)
qed

theorem rename_column_removes_prefix_witness:
  "prefix_core \<in> set known_prefixes \<and>
   \<not> sublist prefix_core ''record-sets/patient/birthDate'' \<and>
   rename_column prefix_core (prefix_core @ ''record-sets/patient/birthDate'') = ''birthDate'' \<and>
   \<not> sublist prefix_core ''patient/birthDate'' \<and>
   rename_column prefix_core ''patient/birthDate'' = ''birthDate'' \<and>
   rename_column prefix_core ''birthDate'' = ''birthDate'' \<and>
   \<not> sublist prefix_core (''x'' @ butlast prefix_core) \<and>
   py_replace prefix_core [] (''x'' @ prefix_core @ ''b'') = ''xb''"
proof -
  have k: "prefix_core \<in> set known_prefixes" by (simp add: known_prefixes_def)
  have n1: "\<not> sublist prefix_core (''x'' @ butlast prefix_core)"
    by (simp add: prefix_core_def sublist_Cons_right)
  have n2: "\<not> sublist prefix_core ''record-sets/patient/birthDate''"
    by (simp add: prefix_core_def sublist_Cons_right)
  have n3: "\<not> sublist prefix_core ''patient/birthDate''"
    by (simp add: prefix_core_def sublist_Cons_right)
  have n4: "CHR ''/'' \<notin> set ''birthDate''" by simp
  have e1: "py_replace prefix_core [] ''b'' = ''b''" by (simp add: prefix_core_def)
  have e2: "last (split_on CHR ''/'' ''record-sets/patient/birthDate'') = ''birthDate''" by simp
  have e3: "last (split_on CHR ''/'' ''patient/birthDate'') = ''birthDate''" by simp
  note t1 = rename_column_removes_prefix [OF k, of "''patient/birthDate''"
      "''record-sets/patient/birthDate''" "''x''" "''b''"]
  note t2 = rename_column_removes_prefix [OF k, of "''birthDate''"]
  from t1 n1 have "py_replace prefix_core [] (''x'' @ prefix_core @ ''b'') =
      ''x'' @ py_replace prefix_core [] ''b''" by blast
  then have r1: "py_replace prefix_core [] (''x'' @ prefix_core @ ''b'') = ''xb''"
    unfolding e1 by simp
  from t1 n2 have "rename_column prefix_core (prefix_core @ ''record-sets/patient/birthDate'') =
      last (split_on CHR ''/'' ''record-sets/patient/birthDate'')" by blast
  then have r2: "rename_column prefix_core (prefix_core @ ''record-sets/patient/birthDate'') =
      ''birthDate''" unfolding e2 .
  from t1 n3 have "rename_column prefix_core ''patient/birthDate'' =
      last (split_on CHR ''/'' ''patient/birthDate'')" by blast
  then have r3: "rename_column prefix_core ''patient/birthDate'' = ''birthDate''" unfolding e3 .
  from t2 n4 have r4: "rename_column prefix_core ''birthDate'' = ''birthDate''" by blast
  from k n1 r1 n2 r2 n3 r3 r4 show ?thesis by blast
qed

section \<open>Aggregator: properties\<close>

lemma sort_key_desc_rev: "sorted_wrt (\<lambda>a b. key b \<le> key a) (rev (sort_key key ys))"
proof -
  have "sorted (map key (sort_key key ys))" by (rule sorted_sort_key)
  then have "sorted_wrt (\<lambda>a b. key a \<le> key b) (sort_key key ys)" by (simp only: sorted_map)
  then show ?thesis by (simp only: sorted_wrt_rev)
qed

lemma sorts_descending_stable: "sorts_descending key (sort_desc_stable key)"
  by (simp add: sorts_descending_def sort_desc_stable_def sort_key_desc_rev)

lemma sorts_descending_reversing: "sorts_descending key (sort_desc_reversing key)"
  by (simp add: sorts_descending_def sort_desc_reversing_def sort_key_desc_rev)

lemma sorts_descending_unique:
  assumes "sorts_descending key srt" "distinct (map key xs)"
  shows "srt xs = rev (sort_key key xs)"
proof -
  from assms(1) have m: "mset (srt xs) = mset xs"
    and s: "sorted_wrt (\<lambda>a b. key b \<le> key a) (srt xs)"
    by (auto simp: sorts_descending_def)
  have "sorted (map key (rev (srt xs)))"
    using s by (simp add: sorted_wrt_rev sorted_map)
  moreover have "mset xs = mset (rev (srt xs))" using m by simp
  moreover have "inj_on key (set xs)" using assms(2) by (simp add: distinct_map)
  ultimately have "sort_key key xs = rev (srt xs)" by (rule sort_key_inj_key_eq [rotated 2])
  then show ?thesis by simp
qed

lemma sorts_descending_mset: "sorts_descending key srt \<Longrightarrow> mset (srt xs) = mset xs"
  by (simp add: sorts_descending_def)

lemma sorts_descending_sorted:
  "sorts_descending key srt \<Longrightarrow> sorted_wrt (\<lambda>a b. key b \<le> key a) (srt xs)"
  by (simp add: sorts_descending_def)

lemma length_map_filter: "length (List.map_filter f xs) = length (filter (\<lambda>x. f x \<noteq> None) xs)"
  by (induction xs) (auto simp: List.map_filter_simps split: option.splits)

lemma map_filter_present: "List.map_filter f (filter (\<lambda>x. f x \<noteq> None) xs) = List.map_filter f xs"
  by (induction xs) (auto simp: List.map_filter_simps split: option.splits)

lemma group_values_present:
  "group_values (filter (\<lambda>x. parameter_value x \<noteq> None) df) k = group_values df k"
proof -
  have "filter (\<lambda>r. taxaname r = Some k) (filter (\<lambda>x. parameter_value x \<noteq> None) df) =
        filter (\<lambda>x. parameter_value x \<noteq> None) (filter (\<lambda>r. taxaname r = Some k) df)"
    by (induction df) auto
  then show ?thesis by (simp only: group_values_def map_filter_present)
qed

lemma length_group_values:
  "length (group_values df k) =
   length (filter (\<lambda>x. taxaname x = Some k \<and> parameter_value x \<noteq> None) df)"
  by (simp add: group_values_def length_map_filter conj_commute)

lemma set_group_keys: "set (group_keys df) = {k. \<exists>r \<in> set df. taxaname r = Some k}"
  by (force simp: group_keys_def List.map_filter_def)

lemma distinct_group_keys: "distinct (group_keys df)"
  by (simp add: group_keys_def)

lemma sum_indicator_distinct:
  "distinct ks \<Longrightarrow> (\<Sum>k\<leftarrow>ks. if k = k0 then 1 else 0) = (if k0 \<in> set ks then 1 else (0::nat))"
  by (induction ks) auto

lemma sum_group_sizes:
  assumes "distinct ks" "\<And>x k. x \<in> set xs \<Longrightarrow> g x = Some k \<Longrightarrow> k \<in> set ks"
  shows "(\<Sum>k\<leftarrow>ks. length (filter (\<lambda>x. g x = Some k \<and> P x) xs)) =
         length (filter (\<lambda>x. g x \<noteq> None \<and> P x) xs)"
  using assms(2)
proof (induction xs)
  case Nil
  then show ?case by simp
next
  case (Cons x xs)
  have ih: "(\<Sum>k\<leftarrow>ks. length (filter (\<lambda>x. g x = Some k \<and> P x) xs)) =
         length (filter (\<lambda>x. g x \<noteq> None \<and> P x) xs)"
    by (rule Cons.IH) (auto intro: Cons.prems)
  have split: "length (filter (\<lambda>x. g x = Some k \<and> P x) (x # xs)) =
      (if g x = Some k \<and> P x then 1 else 0) + length (filter (\<lambda>x. g x = Some k \<and> P x) xs)" for k
    by simp
  have one: "(\<Sum>k\<leftarrow>ks. if g x = Some k \<and> P x then 1 else 0) =
      (if g x \<noteq> None \<and> P x then 1 else (0::nat))"
  proof (cases "g x")
    case None
    then show ?thesis by simp
  next
    case (Some k0)
    with Cons.prems [of x k0] have "k0 \<in> set ks" by simp
    with sum_indicator_distinct [OF assms(1), of k0] Some show ?thesis
      by (cases "P x") (simp_all add: eq_commute [of k0])
  qed
  show ?case
    unfolding split sum_list_addf one ih by simp
qed

lemma sum_count_groupby:
  "sum_list (map Count (groupby_agg df)) =
   length (filter (\<lambda>x. taxaname x \<noteq> None \<and> parameter_value x \<noteq> None) df)"
proof -
  have "sum_list (map Count (groupby_agg df)) =
        (\<Sum>k\<leftarrow>group_keys df. length (filter (\<lambda>x. taxaname x = Some k \<and> parameter_value x \<noteq> None) df))"
    by (simp add: groupby_agg_def agg_group_def length_group_values comp_def)
  also have "\<dots> = length (filter (\<lambda>x. taxaname x \<noteq> None \<and> parameter_value x \<noteq> None) df)"
    by (rule sum_group_sizes [OF distinct_group_keys]) (auto simp: set_group_keys)
  finally show ?thesis .
qed

lemma sum_list_mset_cong: "mset xs = mset ys \<Longrightarrow> sum_list (map f xs) = sum_list (map (f::'a \<Rightarrow> nat) ys)"
  by (metis mset_map sum_mset_sum_list)

text \<open>
  Claim C4 as stated says that the count of a summary row is the number of input rows
  that share its group value, and that the counts add up to the number of rows with a
  present numeric field. In the table below group \<open>A\<close> has two rows and count 1 (one
  of its values is missing), and two rows have a present value while the counts add up
  to 1 (one of them has no group value).
\<close>

theorem summary_stats_count_skips_missing:
  "summary_stats (sort_desc_stable Count)
     [\<lparr>taxaname = Some ''A'', parameter_value = Some (1::int)\<rparr>,
      \<lparr>taxaname = Some ''A'', parameter_value = None\<rparr>,
      \<lparr>taxaname = None, parameter_value = Some 2\<rparr>] =
     [\<lparr>Taxa = ''A'', Min_value = Some 1, Max_value = Some 1, Count = 1\<rparr>] \<and>
   length (filter (\<lambda>x. taxaname x = Some ''A'')
     [\<lparr>taxaname = Some ''A'', parameter_value = Some (1::int)\<rparr>,
      \<lparr>taxaname = Some ''A'', parameter_value = None\<rparr>,
      \<lparr>taxaname = None, parameter_value = Some 2\<rparr>]) = 2 \<and>
   length (filter (\<lambda>x. parameter_value x \<noteq> None)
     [\<lparr>taxaname = Some ''A'', parameter_value = Some (1::int)\<rparr>,
      \<lparr>taxaname = Some ''A'', parameter_value = None\<rparr>,
      \<lparr>taxaname = None, parameter_value = Some 2\<rparr>]) = 2"
  by (simp add: summary_stats_def groupby_agg_def group_keys_def agg_group_def
        group_values_def agg_min_def agg_max_def sort_desc_stable_def List.map_filter_simps)

text \<open>
  Claim C4, amended. The count of each summary row is the number of input rows that
  share its group value and whose numeric field is present; every statistic of the row
  is what the rows with a present numeric field alone give (rows without it are left
  out, not filled in); and the counts of all rows add up to the number of input rows
  whose numeric field and group value are both present.
\<close>

theorem summary_stats_counts:
  assumes "sorts_descending Count srt"
  shows "(\<forall>r \<in> set (summary_stats srt df).
            Count r = length (filter (\<lambda>x. taxaname x = Some (Taxa r) \<and> parameter_value x \<noteq> None) df) \<and>
            r = agg_group (filter (\<lambda>x. parameter_value x \<noteq> None) df) (Taxa r)) \<and>
         sum_list (map Count (summary_stats srt df)) =
           length (filter (\<lambda>x. taxaname x \<noteq> None \<and> parameter_value x \<noteq> None) df)"
proof -
  have m: "mset (summary_stats srt df) = mset (groupby_agg df)"
    by (simp add: summary_stats_def sorts_descending_mset [OF assms])
  then have s: "set (summary_stats srt df) = set (groupby_agg df)" by (rule mset_eq_setD)
  have a: "Count r = length (filter (\<lambda>x. taxaname x = Some (Taxa r) \<and> parameter_value x \<noteq> None) df) \<and>
            r = agg_group (filter (\<lambda>x. parameter_value x \<noteq> None) df) (Taxa r)"
    if "r \<in> set (summary_stats srt df)" for r
  proof -
    from that s obtain k where r: "r = agg_group df k" by (auto simp: groupby_agg_def)
    have p: "agg_group (filter (\<lambda>x. parameter_value x \<noteq> None) df) k = agg_group df k"
      by (simp only: agg_group_def group_values_present)
    have t: "Taxa r = k" by (simp add: r agg_group_def)
    have c: "Count r = length (group_values df k)" by (simp add: r agg_group_def)
    show ?thesis unfolding t p c length_group_values using r by simp
  qed
  have b: "sum_list (map Count (summary_stats srt df)) =
           length (filter (\<lambda>x. taxaname x \<noteq> None \<and> parameter_value x \<noteq> None) df)"
    using sum_list_mset_cong [OF m, of Count] by (simp add: sum_count_groupby)
  from a b show ?thesis by blast
qed

theorem summary_stats_counts_witness:
  "sorts_descending Count (sort_desc_stable (Count :: int summary_row \<Rightarrow> nat)) \<and>
   summary_stats (sort_desc_stable Count)
     [\<lparr>taxaname = Some ''B'', parameter_value = Some (4::int)\<rparr>,
      \<lparr>taxaname = Some ''A'', parameter_value = None\<rparr>,
      \<lparr>taxaname = Some ''B'', parameter_value = Some 2\<rparr>] =
     [\<lparr>Taxa = ''B'', Min_value = Some 2, Max_value = Some 4, Count = 2\<rparr>,
      \<lparr>Taxa = ''A'', Min_value = None, Max_value = None, Count = 0\<rparr>] \<and>
   sum_list (map Count (summary_stats (sort_desc_stable Count)
     [\<lparr>taxaname = Some ''B'', parameter_value = Some (4::int)\<rparr>,
      \<lparr>taxaname = Some ''A'', parameter_value = None\<rparr>,
      \<lparr>taxaname = Some ''B'', parameter_value = Some 2\<rparr>])) = 2"
proof -
  let ?df = "[\<lparr>taxaname = Some ''B'', parameter_value = Some (4::int)\<rparr>,
      \<lparr>taxaname = Some ''A'', parameter_value = None\<rparr>,
      \<lparr>taxaname = Some ''B'', parameter_value = Some 2\<rparr>]"
  have c: "sorts_descending Count (sort_desc_stable (Count :: int summary_row \<Rightarrow> nat))"
    by (rule sorts_descending_stable)
  have e: "summary_stats (sort_desc_stable Count) ?df =
     [\<lparr>Taxa = ''B'', Min_value = Some 2, Max_value = Some 4, Count = 2\<rparr>,
      \<lparr>Taxa = ''A'', Min_value = None, Max_value = None, Count = 0\<rparr>]"
    by (simp add: summary_stats_def groupby_agg_def group_keys_def agg_group_def
        group_values_def agg_min_def agg_max_def sort_desc_stable_def List.map_filter_simps)
  from summary_stats_counts [OF c, of ?df]
  have "sum_list (map Count (summary_stats (sort_desc_stable Count) ?df)) =
        length (filter (\<lambda>x. taxaname x \<noteq> None \<and> parameter_value x \<noteq> None) ?df)"
    by blast
  then have "sum_list (map Count (summary_stats (sort_desc_stable Count) ?df)) = 2" by simp
  with c e show ?thesis by blast
qed

lemma taxa_of_sorted:
  assumes "sorts_descending Count srt" "distinct (map Count xs)"
  shows "srt xs = sort_desc_stable Count xs"
  using sorts_descending_unique [OF assms] sorts_descending_unique [OF sorts_descending_stable assms(2)]
  by simp

lemma sort_values_sorted: "sorted_wrt (\<lambda>a b. key b \<le> key a) (sort_values ties key xs)"
  by (simp add: sort_values_def sort_key_desc_rev)

lemma sort_values_mset: "rearranges ties \<Longrightarrow> mset (sort_values ties key xs) = mset xs"
  by (simp add: sort_values_def rearranges_def)

lemma sorts_descending_sort_values:
  "rearranges ties \<Longrightarrow> sorts_descending key (sort_values ties key)"
  by (simp add: sorts_descending_def sort_values_sorted sort_values_mset)

lemma sort_values_covers:
  assumes "sorts_descending key srt"
  shows "rearranges (\<lambda>ys. rev (srt ys)) \<and> srt xs = sort_values (\<lambda>ys. rev (srt ys)) key xs"
proof -
  from assms have m: "\<And>ys. mset (srt ys) = mset ys"
    and s: "sorted_wrt (\<lambda>a b. key b \<le> key a) (srt xs)"
    by (auto simp: sorts_descending_def)
  from s have "sorted (map key (rev (srt xs)))" by (simp add: sorted_wrt_rev sorted_map)
  then have "sort_key key (rev (srt xs)) = rev (srt xs)" by (rule sort_key_id_if_sorted)
  then have "srt xs = sort_values (\<lambda>ys. rev (srt ys)) key xs" by (simp add: sort_values_def)
  moreover from m have "rearranges (\<lambda>ys. rev (srt ys))" by (simp add: rearranges_def)
  ultimately show ?thesis by blast
qed

lemma sort_values_stable_reversing:
  "sort_values rev key xs = sort_desc_stable key xs \<and>
   sort_values (\<lambda>ys. ys) key xs = sort_desc_reversing key xs"
  by (simp add: sort_values_def sort_desc_stable_def sort_desc_reversing_def)

text \<open>
  Claim C3 as stated says that groups with equal counts keep the order in which
  \<open>groupby\<close> produced them. The cell sorts with the default, unstable routine. In
  the table below \<open>groupby\<close> produces the groups \<open>a\<close>, \<open>b\<close> of count 1 and
  \<open>c\<close>, \<open>d\<close> of count 2 in this order; the output is \<open>d\<close>, \<open>c\<close>,
  \<open>b\<close>, \<open>a\<close>: descending by count, with both pairs of equal count in the reverse
  of their \<open>groupby\<close> order.
\<close>

theorem summary_stats_tie_order_open:
  "rearranges (\<lambda>ys :: int summary_row list. ys) \<and>
   map (\<lambda>r. (Taxa r, Count r))
     (groupby_agg [\<lparr>taxaname = Some ''a'', parameter_value = Some (1::int)\<rparr>,
                   \<lparr>taxaname = Some ''b'', parameter_value = Some 1\<rparr>,
                   \<lparr>taxaname = Some ''c'', parameter_value = Some 1\<rparr>,
                   \<lparr>taxaname = Some ''c'', parameter_value = Some 1\<rparr>,
                   \<lparr>taxaname = Some ''d'', parameter_value = Some 1\<rparr>,
                   \<lparr>taxaname = Some ''d'', parameter_value = Some 1\<rparr>]) =
     [(''a'', 1), (''b'', 1), (''c'', 2), (''d'', 2)] \<and>
   map (\<lambda>r. (Taxa r, Count r))
     (summary_stats (sort_values (\<lambda>ys. ys) Count)
        [\<lparr>taxaname = Some ''a'', parameter_value = Some (1::int)\<rparr>,
         \<lparr>taxaname = Some ''b'', parameter_value = Some 1\<rparr>,
         \<lparr>taxaname = Some ''c'', parameter_value = Some 1\<rparr>,
         \<lparr>taxaname = Some ''c'', parameter_value = Some 1\<rparr>,
         \<lparr>taxaname = Some ''d'', parameter_value = Some 1\<rparr>,
         \<lparr>taxaname = Some ''d'', parameter_value = Some 1\<rparr>]) =
     [(''d'', 2), (''c'', 2), (''b'', 1), (''a'', 1)]"
  by (simp add: rearranges_def summary_stats_def groupby_agg_def group_keys_def
      agg_group_def group_values_def List.map_filter_simps sort_values_def)

text \<open>
  Claim C3, amended. The output rows are the groups in descending order of their count;
  when no two groups have the same count this fixes the order completely (it is the
  order a stable descending sort gives), and groups \<open>A\<close> of count 5, \<open>B\<close> of
  count 9 and \<open>C\<close> of count 3 come out as \<open>B\<close>, \<open>A\<close>, \<open>C\<close>. The order
  among groups of equal count is not fixed by the code: the sort is not stable, and such
  groups need not keep the order in which \<open>groupby\<close> produced them.
\<close>

theorem summary_stats_sorted_by_count:
  assumes "rearranges ties"
  shows "sorted_wrt (\<lambda>a b. Count b \<le> Count a) (summary_stats (sort_values ties Count) df) \<and>
         mset (summary_stats (sort_values ties Count) df) = mset (groupby_agg df) \<and>
         (distinct (map Count (groupby_agg df)) \<longrightarrow>
            summary_stats (sort_values ties Count) df = sort_desc_stable Count (groupby_agg df)) \<and>
         (map (\<lambda>r. (Taxa r, Count r)) (groupby_agg df) = [(''A'', 5), (''B'', 9), (''C'', 3)] \<longrightarrow>
            map Taxa (summary_stats (sort_values ties Count) df) = [''B'', ''A'', ''C''])"
proof -
  let ?srt = "sort_values ties Count :: 'a summary_row list \<Rightarrow> 'a summary_row list"
  have ok: "sorts_descending Count ?srt" using assms by (rule sorts_descending_sort_values)
  have a: "sorted_wrt (\<lambda>a b. Count b \<le> Count a) (summary_stats ?srt df)"
    by (simp add: summary_stats_def sort_values_sorted)
  have b: "mset (summary_stats ?srt df) = mset (groupby_agg df)"
    by (simp add: summary_stats_def sort_values_mset [OF assms])
  have c: "summary_stats ?srt df = sort_desc_stable Count (groupby_agg df)"
    if "distinct (map Count (groupby_agg df))"
    by (simp add: summary_stats_def taxa_of_sorted [OF ok that])
  have d: "map Taxa (summary_stats ?srt df) = [''B'', ''A'', ''C'']"
    if e: "map (\<lambda>r. (Taxa r, Count r)) (groupby_agg df) = [(''A'', 5), (''B'', 9), (''C'', 3)]"
  proof -
    from e obtain x y z where xs: "groupby_agg df = [x, y, z]"
      and v: "Taxa x = ''A''" "Count x = 5" "Taxa y = ''B''" "Count y = 9"
        "Taxa z = ''C''" "Count z = 3"
      by (auto simp: map_eq_Cons_conv)
    then have "distinct (map Count (groupby_agg df))" by simp
    from c [OF this] show ?thesis by (simp add: xs v sort_desc_stable_def)
  qed
  from a b c d show ?thesis by blast
qed

theorem summary_stats_sorted_by_count_witness:
  "rearranges (\<lambda>ys :: int summary_row list. ys) \<and>
   map (\<lambda>r. (Taxa r, Count r))
     (groupby_agg (replicate 5 \<lparr>taxaname = Some ''A'', parameter_value = Some (1::int)\<rparr> @
                   replicate 9 \<lparr>taxaname = Some ''B'', parameter_value = Some 1\<rparr> @
                   replicate 3 \<lparr>taxaname = Some ''C'', parameter_value = Some 1\<rparr>)) =
     [(''A'', 5), (''B'', 9), (''C'', 3)] \<and>
   map Taxa
     (summary_stats (sort_values (\<lambda>ys. ys) Count)
        (replicate 5 \<lparr>taxaname = Some ''A'', parameter_value = Some (1::int)\<rparr> @
         replicate 9 \<lparr>taxaname = Some ''B'', parameter_value = Some 1\<rparr> @
         replicate 3 \<lparr>taxaname = Some ''C'', parameter_value = Some 1\<rparr>)) =
     [''B'', ''A'', ''C'']"
proof -
  let ?df = "replicate 5 \<lparr>taxaname = Some ''A'', parameter_value = Some (1::int)\<rparr> @
             replicate 9 \<lparr>taxaname = Some ''B'', parameter_value = Some 1\<rparr> @
             replicate 3 \<lparr>taxaname = Some ''C'', parameter_value = Some 1\<rparr>"
  have c: "rearranges (\<lambda>ys :: int summary_row list. ys)" by (simp add: rearranges_def)
  have g: "map (\<lambda>r. (Taxa r, Count r)) (groupby_agg ?df) = [(''A'', 5), (''B'', 9), (''C'', 3)]"
    by (simp add: groupby_agg_def group_keys_def agg_group_def group_values_def
        List.map_filter_simps eval_nat_numeral)
  from summary_stats_sorted_by_count [OF c, of ?df] g
  have "map Taxa (summary_stats (sort_values (\<lambda>ys. ys) Count) ?df) = [''B'', ''A'', ''C'']"
    by blast
  with c g show ?thesis by blast
qed

section \<open>Network builder: properties\<close>

lemma nodes_add_nodes_from:
  "nodes (add_nodes_from ns t g) = fold (\<lambda>n. AList.update n (Some t)) ns (nodes g)"
  unfolding add_nodes_from_def by (induction ns arbitrary: g) (simp_all add: add_node_def)

lemma edges_add_nodes_from: "edges (add_nodes_from ns t g) = edges g"
  unfolding add_nodes_from_def by (induction ns arbitrary: g) (simp_all add: add_node_def)

lemma map_of_fold_update:
  "map_of (fold (\<lambda>n. AList.update n v) ns al) k = (if k \<in> set ns then Some v else map_of al k)"
  by (induction ns arbitrary: al) (auto simp: update_conv')

lemma keys_fold_update:
  "fst ` set (fold (\<lambda>n. AList.update n v) ns al) = set ns \<union> fst ` set al"
  by (induction ns arbitrary: al) (auto simp: dom_update)

lemma distinct_fold_update:
  "distinct (map fst al) \<Longrightarrow> distinct (map fst (fold (\<lambda>n. AList.update n v) ns al))"
  by (induction ns arbitrary: al) (auto simp: distinct_update)

lemma edges_add_edge:
  "edges (add_edge u v g) =
     (if (u, v) \<in> set (edges g) \<or> (v, u) \<in> set (edges g) then edges g else edges g @ [(u, v)])"
  by (simp add: add_edge_def touch_node_def has_edge_def Let_def)

lemma nodes_add_edge:
  "u \<in> fst ` set (nodes g) \<Longrightarrow> v \<in> fst ` set (nodes g) \<Longrightarrow> nodes (add_edge u v g) = nodes g"
  by (simp add: add_edge_def touch_node_def Let_def)

lemma fold_add_row_edge:
  "fold add_row_edge rows g = fold (\<lambda>(p, c). add_edge p c) (row_pairs rows) g"
  by (induction rows arbitrary: g)
    (auto simp: row_pairs_def add_row_edge_def List.map_filter_simps split: option.splits)

lemma nodes_fold_add_edge:
  "\<forall>(p, c) \<in> set ps. p \<in> fst ` set (nodes g) \<and> c \<in> fst ` set (nodes g) \<Longrightarrow>
   nodes (fold (\<lambda>(p, c). add_edge p c) ps g) = nodes g"
proof (induction ps arbitrary: g)
  case Nil
  then show ?case by simp
next
  case (Cons a ps)
  obtain p c where a: "a = (p, c)" by (cases a)
  from Cons.prems have n: "nodes (add_edge p c g) = nodes g"
    by (simp add: a nodes_add_edge)
  from Cons.prems have "\<forall>(p', c') \<in> set ps. p' \<in> fst ` set (nodes (add_edge p c g)) \<and>
      c' \<in> fst ` set (nodes (add_edge p c g))"
    unfolding n by simp
  from Cons.IH [OF this] show ?case by (simp add: a n)
qed

lemma endpoints_in_iff:
  "endpoints (u, v) \<in> endpoints ` set es \<longleftrightarrow> (u, v) \<in> set es \<or> (v, u) \<in> set es"
  by (force simp: endpoints_def doubleton_eq_iff)

lemma edges_fold_add_edge:
  "set (edges g) \<subseteq> set (edges (fold (\<lambda>(p, c). add_edge p c) ps g)) \<and>
   set (edges (fold (\<lambda>(p, c). add_edge p c) ps g)) \<subseteq> set (edges g) \<union> set ps \<and>
   endpoints ` set ps \<subseteq> endpoints ` set (edges (fold (\<lambda>(p, c). add_edge p c) ps g)) \<and>
   (distinct (map endpoints (edges g)) \<longrightarrow>
      distinct (map endpoints (edges (fold (\<lambda>(p, c). add_edge p c) ps g))))"
proof (induction ps arbitrary: g)
  case Nil
  then show ?case by simp
next
  case (Cons a ps)
  obtain p c where a: "a = (p, c)" by (cases a)
  let ?g = "add_edge p c g"
  have sub: "set (edges g) \<subseteq> set (edges ?g)" by (auto simp: edges_add_edge)
  have sup: "set (edges ?g) \<subseteq> set (edges g) \<union> {(p, c)}" by (auto simp: edges_add_edge)
  have mem: "endpoints (p, c) \<in> endpoints ` set (edges ?g)"
    unfolding endpoints_in_iff by (auto simp: edges_add_edge)
  have dis: "distinct (map endpoints (edges ?g))" if "distinct (map endpoints (edges g))"
    using that endpoints_in_iff [of p c "edges g"] by (auto simp: edges_add_edge)
  let ?r = "fold (\<lambda>(p, c). add_edge p c) ps ?g"
  from Cons.IH [of ?g] have i1: "set (edges ?g) \<subseteq> set (edges ?r)"
    and i2: "set (edges ?r) \<subseteq> set (edges ?g) \<union> set ps"
    and i3: "endpoints ` set ps \<subseteq> endpoints ` set (edges ?r)"
    and i4: "distinct (map endpoints (edges ?g)) \<longrightarrow> distinct (map endpoints (edges ?r))"
    by blast+
  have r: "fold (\<lambda>(p, c). add_edge p c) (a # ps) g = ?r" by (simp add: a)
  have c1: "set (edges g) \<subseteq> set (edges ?r)" using sub i1 by blast
  have c2: "set (edges ?r) \<subseteq> set (edges g) \<union> set (a # ps)" using sup i2 by (auto simp: a)
  have "endpoints (p, c) \<in> endpoints ` set (edges ?r)" using mem i1 by blast
  then have c3: "endpoints ` set (a # ps) \<subseteq> endpoints ` set (edges ?r)" using i3 by (simp add: a)
  have c4: "distinct (map endpoints (edges g)) \<longrightarrow> distinct (map endpoints (edges ?r))"
    using dis i4 by blast
  from c1 c2 c3 c4 show ?case unfolding r by blast
qed

lemma filter_distinct_key:
  "distinct (map f xs) \<Longrightarrow> k \<in> f ` set xs \<Longrightarrow> length (filter (\<lambda>x. f x = k) xs) = 1"
proof (induction xs)
  case Nil
  then show ?case by simp
next
  case (Cons x xs)
  show ?case
  proof (cases "f x = k")
    case True
    with Cons.prems have "\<forall>y\<in>set xs. f y \<noteq> k" by (auto simp: image_iff)
    then have "filter (\<lambda>x. f x = k) xs = []" by (simp add: filter_empty_conv)
    with True show ?thesis by simp
  next
    case False
    with Cons show ?thesis by auto
  qed
qed

lemma endpoints_eq_iff: "endpoints e = endpoints (p, c) \<longleftrightarrow> e = (p, c) \<or> e = (c, p)"
  by (cases e) (auto simp: endpoints_def doubleton_eq_iff)

lemma set_row_pairs:
  "set (row_pairs rows) = {(p, c). \<exists>r \<in> set rows. patient_id r = p \<and> org_name r = Some c}"
  by (induction rows) (auto simp: row_pairs_def List.map_filter_simps split: option.splits)

lemma set_py_unique: "set (py_unique xs) = set xs"
  by (simp add: py_unique_def)

lemma build_graph_head_unfold:
  "build_graph_head n srt cm =
     fold (\<lambda>(p, c). add_edge p c)
       (row_pairs (cohort_map_top_clinics (top_clinics_head n srt cm) cm))
       (add_nodes_from
          (py_unique (map patient_id (cohort_map_top_clinics (top_clinics_head n srt cm) cm)))
          ''patient'' (add_nodes_from (top_clinics_head n srt cm) ''clinic'' empty_graph))"
  by (simp add: build_graph_head_def Let_def fold_add_row_edge)

lemma selected_pairs_are_nodes:
  assumes "(p, c) \<in> set (row_pairs (cohort_map_top_clinics clinics cm))"
  shows "p \<in> set (map patient_id (cohort_map_top_clinics clinics cm)) \<and> c \<in> set clinics"
  using assms by (auto simp: set_row_pairs cohort_map_top_clinics_def)

lemma nodes_build_graph_head:
  "nodes (build_graph_head n srt cm) =
     fold (\<lambda>n. AList.update n (Some ''patient''))
       (py_unique (map patient_id (cohort_map_top_clinics (top_clinics_head n srt cm) cm)))
       (fold (\<lambda>n. AList.update n (Some ''clinic'')) (top_clinics_head n srt cm) [])"
proof -
  let ?clinics = "top_clinics_head n srt cm"
  let ?sel = "cohort_map_top_clinics ?clinics cm"
  let ?g2 = "add_nodes_from (py_unique (map patient_id ?sel)) ''patient''
               (add_nodes_from ?clinics ''clinic'' empty_graph)"
  have k: "fst ` set (nodes ?g2) = set (map patient_id ?sel) \<union> set ?clinics"
    by (simp add: nodes_add_nodes_from keys_fold_update set_py_unique empty_graph_def)
  have "\<forall>(p, c) \<in> set (row_pairs ?sel). p \<in> fst ` set (nodes ?g2) \<and> c \<in> fst ` set (nodes ?g2)"
    unfolding k using selected_pairs_are_nodes [of _ _ ?clinics cm] by blast
  from nodes_fold_add_edge [OF this] show ?thesis
    by (simp add: build_graph_head_unfold nodes_add_nodes_from empty_graph_def)
qed

lemma edges_build_graph_head:
  "set (edges (build_graph_head n srt cm)) \<subseteq>
     set (row_pairs (cohort_map_top_clinics (top_clinics_head n srt cm) cm)) \<and>
   endpoints ` set (row_pairs (cohort_map_top_clinics (top_clinics_head n srt cm) cm)) \<subseteq>
     endpoints ` set (edges (build_graph_head n srt cm)) \<and>
   distinct (map endpoints (edges (build_graph_head n srt cm)))"
  using edges_fold_add_edge [of
      "add_nodes_from
          (py_unique (map patient_id (cohort_map_top_clinics (top_clinics_head n srt cm) cm)))
          ''patient'' (add_nodes_from (top_clinics_head n srt cm) ''clinic'' empty_graph)"
      "row_pairs (cohort_map_top_clinics (top_clinics_head n srt cm) cm)"]
  by (simp add: build_graph_head_unfold edges_add_nodes_from empty_graph_def)

lemma selected_pairs_in_table:
  assumes "(p, c) \<in> set (row_pairs (cohort_map_top_clinics clinics cm))"
  shows "p \<in> set (map patient_id cm) \<and> c \<in> set (List.map_filter org_name cm)"
  using assms by (force simp: set_row_pairs cohort_map_top_clinics_def List.map_filter_def)

lemma endpoints_inj_on_pairs:
  assumes dj: "set (map patient_id cm) \<inter> set (List.map_filter org_name cm) = {}"
  shows "inj_on endpoints (set (row_pairs (cohort_map_top_clinics clinics cm)))"
proof (rule inj_onI)
  fix a b
  assume a: "a \<in> set (row_pairs (cohort_map_top_clinics clinics cm))"
    and b: "b \<in> set (row_pairs (cohort_map_top_clinics clinics cm))"
    and e: "endpoints a = endpoints b"
  obtain p c where a': "a = (p, c)" by (cases a)
  obtain p' c' where b': "b = (p', c')" by (cases b)
  from e have "a = (p', c') \<or> a = (c', p')" by (simp add: b' endpoints_eq_iff)
  moreover have "a \<noteq> (c', p')"
  proof
    assume "a = (c', p')"
    with a' have "p = c'" by simp
    moreover from a have "p \<in> set (map patient_id cm)"
      unfolding a' by (rule selected_pairs_in_table [THEN conjunct1])
    moreover from b have "c' \<in> set (List.map_filter org_name cm)"
      unfolding b' by (rule selected_pairs_in_table [THEN conjunct2])
    ultimately show False using dj by blast
  qed
  ultimately show "a = b" by (simp add: b')
qed

lemmas graph_eval = build_graph_def build_graph_head_def top_clinics_head_def
  cohort_map_top_clinics_def py_unique_def add_nodes_from_def add_node_def empty_graph_def
  add_row_edge_def add_edge_def touch_node_def has_edge_def patient_count_def

text \<open>
  Claim C7. For every (patient, clinic) pair among the rows restricted to the selected
  clinics the graph has exactly one edge joining the two, however many rows repeat the
  pair; every edge comes from such a pair, no edge occurs twice, and the number of
  edges is the number of distinct pairs of endpoints, which is the number of distinct
  (patient, clinic) pairs when no patient identifier is also a clinic name. For the rows p1 at clinicA, p2 at
  clinicA, p3 at clinicB and K = 2 (and equally for the notebook's K = 10) the graph has
  the two clinic nodes, the three patient nodes and three edges, clinicA carries the
  count 2 and clinicB the count 1, and feeding the same pair twice gives one edge.
\<close>

theorem graph_one_edge_per_pair:
  "(\<forall>(p, c) \<in> set (row_pairs (cohort_map_top_clinics (top_clinics_head n srt cm) cm)).
      length (filter (\<lambda>e. e = (p, c) \<or> e = (c, p)) (edges (build_graph_head n srt cm))) = 1) \<and>
   set (edges (build_graph_head n srt cm)) \<subseteq>
     set (row_pairs (cohort_map_top_clinics (top_clinics_head n srt cm) cm)) \<and>
   distinct (edges (build_graph_head n srt cm)) \<and>
   length (edges (build_graph_head n srt cm)) =
     card (endpoints ` set (row_pairs (cohort_map_top_clinics (top_clinics_head n srt cm) cm))) \<and>
   (set (map patient_id cm) \<inter> set (List.map_filter org_name cm) = {} \<longrightarrow>
      length (edges (build_graph_head n srt cm)) =
        length (remdups (row_pairs (cohort_map_top_clinics (top_clinics_head n srt cm) cm)))) \<and>
   (sorts_descending snd srt \<longrightarrow>
      build_graph_head 2 srt [visit ''p1'' ''clinicA'', visit ''p2'' ''clinicA'', visit ''p3'' ''clinicB''] =
        \<lparr>nodes = [(''clinicA'', Some ''clinic''), (''clinicB'', Some ''clinic''),
                  (''p1'', Some ''patient''), (''p2'', Some ''patient''), (''p3'', Some ''patient'')],
         edges = [(''p1'', ''clinicA''), (''p2'', ''clinicA''), (''p3'', ''clinicB'')]\<rparr> \<and>
      build_graph srt [visit ''p1'' ''clinicA'', visit ''p2'' ''clinicA'', visit ''p3'' ''clinicB''] =
        build_graph_head 2 srt [visit ''p1'' ''clinicA'', visit ''p2'' ''clinicA'', visit ''p3'' ''clinicB''] \<and>
      patient_count srt [visit ''p1'' ''clinicA'', visit ''p2'' ''clinicA'', visit ''p3'' ''clinicB'']
        ''clinicA'' = Some 2 \<and>
      patient_count srt [visit ''p1'' ''clinicA'', visit ''p2'' ''clinicA'', visit ''p3'' ''clinicB'']
        ''clinicB'' = Some 1 \<and>
      edges (build_graph srt [visit ''p1'' ''clinicA'', visit ''p1'' ''clinicA'']) = [(''p1'', ''clinicA'')])"
proof -
  let ?ps = "row_pairs (cohort_map_top_clinics (top_clinics_head n srt cm) cm)"
  let ?es = "edges (build_graph_head n srt cm)"
  from edges_build_graph_head [of n srt cm]
  have sub: "set ?es \<subseteq> set ?ps" and cov: "endpoints ` set ?ps \<subseteq> endpoints ` set ?es"
    and dis: "distinct (map endpoints ?es)" by blast+
  have one: "length (filter (\<lambda>e. e = (p, c) \<or> e = (c, p)) ?es) = 1" if "(p, c) \<in> set ?ps" for p c
  proof -
    from that cov have "endpoints (p, c) \<in> endpoints ` set ?es" by blast
    from filter_distinct_key [OF dis this] show ?thesis by (simp only: endpoints_eq_iff)
  qed
  have d: "distinct ?es" using dis by (rule distinct_map [THEN iffD1, THEN conjunct1])
  have "endpoints ` set ?es = endpoints ` set ?ps" using sub cov by blast
  then have "card (endpoints ` set ?ps) = card (set (map endpoints ?es))" by simp
  also have "\<dots> = length (map endpoints ?es)" using dis by (rule distinct_card)
  finally have len: "length ?es = card (endpoints ` set ?ps)" by simp
  have cnt: "length ?es = length (remdups ?ps)"
    if "set (map patient_id cm) \<inter> set (List.map_filter org_name cm) = {}"
    using card_image [OF endpoints_inj_on_pairs [OF that, of "top_clinics_head n srt cm"]] len
    by (simp add: List.card_set)
  have ex: "build_graph_head 2 srt [visit ''p1'' ''clinicA'', visit ''p2'' ''clinicA'', visit ''p3'' ''clinicB''] =
        \<lparr>nodes = [(''clinicA'', Some ''clinic''), (''clinicB'', Some ''clinic''),
                  (''p1'', Some ''patient''), (''p2'', Some ''patient''), (''p3'', Some ''patient'')],
         edges = [(''p1'', ''clinicA''), (''p2'', ''clinicA''), (''p3'', ''clinicB'')]\<rparr> \<and>
      build_graph srt [visit ''p1'' ''clinicA'', visit ''p2'' ''clinicA'', visit ''p3'' ''clinicB''] =
        build_graph_head 2 srt [visit ''p1'' ''clinicA'', visit ''p2'' ''clinicA'', visit ''p3'' ''clinicB''] \<and>
      patient_count srt [visit ''p1'' ''clinicA'', visit ''p2'' ''clinicA'', visit ''p3'' ''clinicB'']
        ''clinicA'' = Some 2 \<and>
      patient_count srt [visit ''p1'' ''clinicA'', visit ''p2'' ''clinicA'', visit ''p3'' ''clinicB'']
        ''clinicB'' = Some 1 \<and>
      edges (build_graph srt [visit ''p1'' ''clinicA'', visit ''p1'' ''clinicA'']) = [(''p1'', ''clinicA'')]"
    if c: "sorts_descending snd srt"
  proof -
    have s3: "srt [(''clinicA'', Suc (Suc 0)), (''clinicB'', Suc 0)] =
        [(''clinicA'', Suc (Suc 0)), (''clinicB'', Suc 0)]"
      using sorts_descending_unique [OF c, of "[(''clinicA'', Suc (Suc 0)), (''clinicB'', Suc 0)]"]
      by simp
    have s1: "srt [(''clinicA'', Suc (Suc 0))] = [(''clinicA'', Suc (Suc 0))]"
      using sorts_descending_unique [OF c, of "[(''clinicA'', Suc (Suc 0))]"] by simp
    have v3: "clinic_patient_counts srt
        [visit ''p1'' ''clinicA'', visit ''p2'' ''clinicA'', visit ''p3'' ''clinicB''] =
        [(''clinicA'', 2), (''clinicB'', 1)]"
      by (simp add: clinic_patient_counts_def value_counts_def visit_def py_unique_def
          List.map_filter_simps s3)
    have v1: "clinic_patient_counts srt [visit ''p1'' ''clinicA'', visit ''p1'' ''clinicA''] =
        [(''clinicA'', 2)]"
      by (simp add: clinic_patient_counts_def value_counts_def visit_def py_unique_def
          List.map_filter_simps s1)
    show ?thesis
      by (simp add: graph_eval v3 v1) (simp add: visit_def graph_eval)
  qed
  from one sub d len cnt ex show ?thesis by blast
qed

theorem graph_one_edge_per_pair_witness:
  "sorts_descending snd (sort_desc_stable (snd :: string \<times> nat \<Rightarrow> nat)) \<and>
   row_pairs (cohort_map_top_clinics
     (top_clinics_head 10 (sort_desc_stable snd)
        [visit ''p1'' ''clinicA'', visit ''p2'' ''clinicA'', visit ''p1'' ''clinicA''])
     [visit ''p1'' ''clinicA'', visit ''p2'' ''clinicA'', visit ''p1'' ''clinicA'']) =
     [(''p1'', ''clinicA''), (''p2'', ''clinicA''), (''p1'', ''clinicA'')] \<and>
   length (filter (\<lambda>e. e = (''p1'', ''clinicA'') \<or> e = (''clinicA'', ''p1''))
     (edges (build_graph_head 10 (sort_desc_stable snd)
        [visit ''p1'' ''clinicA'', visit ''p2'' ''clinicA'', visit ''p1'' ''clinicA'']))) = 1 \<and>
   length (edges (build_graph_head 2 (sort_desc_stable snd)
     [visit ''p1'' ''clinicA'', visit ''p2'' ''clinicA'', visit ''p3'' ''clinicB''])) = 3"
proof -
  let ?srt = "sort_desc_stable (snd :: string \<times> nat \<Rightarrow> nat)"
  let ?cm = "[visit ''p1'' ''clinicA'', visit ''p2'' ''clinicA'', visit ''p1'' ''clinicA'']"
  have c: "sorts_descending snd ?srt" by (rule sorts_descending_stable)
  have rp: "row_pairs (cohort_map_top_clinics (top_clinics_head 10 ?srt ?cm) ?cm) =
     [(''p1'', ''clinicA''), (''p2'', ''clinicA''), (''p1'', ''clinicA'')]"
    by (simp add: row_pairs_def cohort_map_top_clinics_def top_clinics_head_def
        clinic_patient_counts_def value_counts_def py_unique_def sort_desc_stable_def visit_def
        List.map_filter_simps)
  then have m: "(''p1'', ''clinicA'') \<in>
      set (row_pairs (cohort_map_top_clinics (top_clinics_head 10 ?srt ?cm) ?cm))"
    by simp
  from graph_one_edge_per_pair [of 10 ?srt ?cm] m
  have one: "length (filter (\<lambda>e. e = (''p1'', ''clinicA'') \<or> e = (''clinicA'', ''p1''))
     (edges (build_graph_head 10 ?srt ?cm))) = 1"
    by blast
  from graph_one_edge_per_pair [of 10 ?srt ?cm] c
  have "build_graph_head 2 ?srt [visit ''p1'' ''clinicA'', visit ''p2'' ''clinicA'', visit ''p3'' ''clinicB''] =
        \<lparr>nodes = [(''clinicA'', Some ''clinic''), (''clinicB'', Some ''clinic''),
                  (''p1'', Some ''patient''), (''p2'', Some ''patient''), (''p3'', Some ''patient'')],
         edges = [(''p1'', ''clinicA''), (''p2'', ''clinicA''), (''p3'', ''clinicB'')]\<rparr>"
    by blast
  then have three: "length (edges (build_graph_head 2 ?srt
     [visit ''p1'' ''clinicA'', visit ''p2'' ''clinicA'', visit ''p3'' ''clinicB''])) = 3"
    by simp
  from c rp one three show ?thesis by blast
qed

lemma map_of_graph_nodes:
  "map_of (nodes (build_graph_head n srt cm)) k =
     (if k \<in> set (map patient_id (cohort_map_top_clinics (top_clinics_head n srt cm) cm))
      then Some (Some ''patient'')
      else if k \<in> set (top_clinics_head n srt cm) then Some (Some ''clinic'') else None)"
  by (simp add: nodes_build_graph_head map_of_fold_update set_py_unique)

lemma distinct_graph_nodes: "distinct (map fst (nodes (build_graph_head n srt cm)))"
  by (simp add: nodes_build_graph_head distinct_fold_update)

text \<open>
  Claim C10. When no patient identifier of the table is also a clinic name of the
  table, the graph is bipartite: every node is typed patient or clinic (and occurs
  once), and every edge joins a patient-typed node to a clinic-typed node.
\<close>

theorem graph_bipartite:
  assumes "set (map patient_id cm) \<inter> set (List.map_filter org_name cm) = {}"
  shows "(\<forall>(k, t) \<in> set (nodes (build_graph_head n srt cm)).
            t = Some ''patient'' \<or> t = Some ''clinic'') \<and>
         distinct (map fst (nodes (build_graph_head n srt cm))) \<and>
         (\<forall>(u, v) \<in> set (edges (build_graph_head n srt cm)).
            node_type (build_graph_head n srt cm) u = Some ''patient'' \<and>
            node_type (build_graph_head n srt cm) v = Some ''clinic'') \<and>
         build_graph srt cm = build_graph_head 10 srt cm"
proof -
  let ?g = "build_graph_head n srt cm"
  let ?clinics = "top_clinics_head n srt cm"
  let ?sel = "cohort_map_top_clinics ?clinics cm"
  have typed: "t = Some ''patient'' \<or> t = Some ''clinic''" if "(k, t) \<in> set (nodes ?g)" for k t
  proof -
    from that distinct_graph_nodes [of n srt cm] have "map_of (nodes ?g) k = Some t" by simp
    then show ?thesis by (simp add: map_of_graph_nodes split: if_splits)
  qed
  have joins: "node_type ?g u = Some ''patient'' \<and> node_type ?g v = Some ''clinic''"
    if "(u, v) \<in> set (edges ?g)" for u v
  proof -
    from that edges_build_graph_head [of n srt cm] have "(u, v) \<in> set (row_pairs ?sel)" by blast
    then obtain r where r: "r \<in> set ?sel" "patient_id r = u" "org_name r = Some v"
      by (auto simp: set_row_pairs)
    then have u: "u \<in> set (map patient_id ?sel)" by auto
    from r have v: "v \<in> set ?clinics" by (auto simp: cohort_map_top_clinics_def)
    from r have "r \<in> set cm" by (simp add: cohort_map_top_clinics_def)
    with r have "v \<in> set (List.map_filter org_name cm)"
      by (force simp: List.map_filter_def)
    moreover have "set (map patient_id ?sel) \<subseteq> set (map patient_id cm)"
      by (auto simp: cohort_map_top_clinics_def)
    ultimately have nv: "v \<notin> set (map patient_id ?sel)" using assms by blast
    from u v nv show ?thesis by (simp add: node_type_def map_of_graph_nodes)
  qed
  from typed joins distinct_graph_nodes [of n srt cm] show ?thesis
    by (auto simp: build_graph_def)
qed

theorem graph_bipartite_witness:
  "set (map patient_id [visit ''p1'' ''clinicA'', visit ''p2'' ''clinicA'', visit ''p3'' ''clinicB'']) \<inter>
     set (List.map_filter org_name
       [visit ''p1'' ''clinicA'', visit ''p2'' ''clinicA'', visit ''p3'' ''clinicB'']) = {} \<and>
   (''p3'', ''clinicB'') \<in> set (edges (build_graph (sort_desc_stable snd)
      [visit ''p1'' ''clinicA'', visit ''p2'' ''clinicA'', visit ''p3'' ''clinicB''])) \<and>
   node_type (build_graph (sort_desc_stable snd)
      [visit ''p1'' ''clinicA'', visit ''p2'' ''clinicA'', visit ''p3'' ''clinicB'']) ''p3'' =
     Some ''patient'' \<and>
   node_type (build_graph (sort_desc_stable snd)
      [visit ''p1'' ''clinicA'', visit ''p2'' ''clinicA'', visit ''p3'' ''clinicB'']) ''clinicB'' =
     Some ''clinic''"
proof -
  let ?cm = "[visit ''p1'' ''clinicA'', visit ''p2'' ''clinicA'', visit ''p3'' ''clinicB'']"
  let ?srt = "sort_desc_stable (snd :: string \<times> nat \<Rightarrow> nat)"
  have d: "set (map patient_id ?cm) \<inter> set (List.map_filter org_name ?cm) = {}"
    by (simp add: visit_def List.map_filter_simps)
  have e: "edges (build_graph ?srt ?cm) =
      [(''p1'', ''clinicA''), (''p2'', ''clinicA''), (''p3'', ''clinicB'')]"
    by (simp add: graph_eval clinic_patient_counts_def value_counts_def sort_desc_stable_def
        visit_def List.map_filter_simps)
  then have m: "(''p3'', ''clinicB'') \<in> set (edges (build_graph_head 10 ?srt ?cm))"
    by (simp add: build_graph_def)
  from graph_bipartite [OF d, of 10 ?srt] m
  have t: "node_type (build_graph_head 10 ?srt ?cm) ''p3'' = Some ''patient'' \<and>
        node_type (build_graph_head 10 ?srt ?cm) ''clinicB'' = Some ''clinic''"
    by blast
  have bg: "build_graph ?srt ?cm = build_graph_head 10 ?srt ?cm" by (simp add: build_graph_def)
  from d m t show ?thesis unfolding bg by blast
qed

lemma sorts_descending_hd:
  assumes c: "sorts_descending key srt" and x: "x \<in> set xs"
    and top: "\<And>y. y \<in> set xs \<Longrightarrow> y \<noteq> x \<Longrightarrow> key y < key x"
  shows "\<exists>ys. srt xs = x # ys"
proof -
  from c have m: "mset (srt xs) = mset xs"
    and s: "sorted_wrt (\<lambda>a b. key b \<le> key a) (srt xs)"
    by (auto simp: sorts_descending_def)
  from m have se: "set (srt xs) = set xs" by (rule mset_eq_setD)
  with x obtain y ys where sx: "srt xs = y # ys" by (cases "srt xs") auto
  have "y = x"
  proof (rule ccontr)
    assume ne: "y \<noteq> x"
    with x se sx have "x \<in> set ys" by auto
    with s sx have "key x \<le> key y" by auto
    moreover from se sx have "y \<in> set xs" by auto
    from top [OF this ne] have "key y < key x" .
    ultimately show False by simp
  qed
  with sx show ?thesis by simp
qed

lemma eleven_clinics_counts:
  "clinic_patient_counts srt eleven_clinics =
     srt [(''ca'', 2), (''cb'', 2), (''cc'', 2), (''cd'', 2), (''ce'', 2), (''cf'', 2), (''cg'', 2),
          (''ch'', 2), (''ci'', 2), (''cj'', 2), (''ck'', 3)]"
  by (simp add: clinic_patient_counts_def value_counts_def eleven_clinics_def visit_def
      py_unique_def List.map_filter_simps eval_nat_numeral)

text \<open>
  Claim C2, at the inputs where the code departs from it. The code counts the rows of
  \<open>cohort_map\<close> per clinic, not the distinct patients: one patient with two episode
  rows at clinic \<open>A\<close> gives \<open>A\<close> the count 2. In \<open>eleven_clinics\<close>, ten clinics
  have two patients each and clinic \<open>ck\<close> has one patient with three episode rows;
  \<open>ck\<close> is among the ten selected clinics, with count 3, for every sort routine that
  meets the contract.
\<close>

theorem clinic_counts_count_rows:
  assumes "sorts_descending snd srt"
  shows "clinic_patient_counts srt [visit ''p1'' ''A'', visit ''p1'' ''A''] = [(''A'', 2)] \<and>
         distinct_patients [visit ''p1'' ''A'', visit ''p1'' ''A''] ''A'' = 1 \<and>
         ''ck'' \<in> set (top_clinics srt eleven_clinics) \<and>
         patient_count srt eleven_clinics ''ck'' = Some 3 \<and>
         distinct_patients eleven_clinics ''ck'' = 1 \<and>
         map (distinct_patients eleven_clinics)
           [''ca'', ''cb'', ''cc'', ''cd'', ''ce'', ''cf'', ''cg'', ''ch'', ''ci'', ''cj''] =
           [2, 2, 2, 2, 2, 2, 2, 2, 2, 2]"
proof -
  have s1: "srt [(''A'', Suc (Suc 0))] = [(''A'', Suc (Suc 0))]"
    using sorts_descending_unique [OF assms, of "[(''A'', Suc (Suc 0))]"] by simp
  have a: "clinic_patient_counts srt [visit ''p1'' ''A'', visit ''p1'' ''A''] = [(''A'', 2)]"
    by (simp add: clinic_patient_counts_def value_counts_def visit_def py_unique_def
        List.map_filter_simps s1)
  have b: "distinct_patients [visit ''p1'' ''A'', visit ''p1'' ''A''] ''A'' = 1"
    by (simp add: distinct_patients_def visit_def)
  let ?l = "[(''ca'', 2), (''cb'', 2), (''cc'', 2), (''cd'', 2), (''ce'', 2), (''cf'', 2), (''cg'', 2),
          (''ch'', 2), (''ci'', 2), (''cj'', 2), (''ck'', 3::nat)]"
  have "\<exists>ys. srt ?l = (''ck'', 3) # ys"
    by (rule sorts_descending_hd [OF assms]) auto
  then obtain ys where ys: "srt ?l = (''ck'', 3) # ys" ..
  have c: "''ck'' \<in> set (top_clinics srt eleven_clinics)"
    by (simp add: top_clinics_def top_clinics_head_def eleven_clinics_counts ys)
  have d: "patient_count srt eleven_clinics ''ck'' = Some 3"
    by (simp add: patient_count_def eleven_clinics_counts ys)
  have e: "distinct_patients eleven_clinics ''ck'' = 1"
    by (simp add: distinct_patients_def eleven_clinics_def visit_def eval_nat_numeral)
  have f: "map (distinct_patients eleven_clinics)
           [''ca'', ''cb'', ''cc'', ''cd'', ''ce'', ''cf'', ''cg'', ''ch'', ''ci'', ''cj''] =
           [2, 2, 2, 2, 2, 2, 2, 2, 2, 2]"
    by (simp add: distinct_patients_def eleven_clinics_def visit_def eval_nat_numeral)
  from a b c d e f show ?thesis by blast
qed

theorem clinic_counts_count_rows_witness:
  "sorts_descending snd (sort_desc_stable (snd :: string \<times> nat \<Rightarrow> nat)) \<and>
   ''ck'' \<in> set (top_clinics (sort_desc_stable snd) eleven_clinics) \<and>
   distinct_patients eleven_clinics ''ck'' = 1 \<and>
   top_clinics (sort_desc_stable snd) eleven_clinics =
     [''ck'', ''ca'', ''cb'', ''cc'', ''cd'', ''ce'', ''cf'', ''cg'', ''ch'', ''ci'']"
proof -
  have c: "sorts_descending snd (sort_desc_stable (snd :: string \<times> nat \<Rightarrow> nat))"
    by (rule sorts_descending_stable)
  have t: "top_clinics (sort_desc_stable snd) eleven_clinics =
     [''ck'', ''ca'', ''cb'', ''cc'', ''cd'', ''ce'', ''cf'', ''cg'', ''ch'', ''ci'']"
    by (simp add: top_clinics_def top_clinics_head_def eleven_clinics_counts sort_desc_stable_def)
  from clinic_counts_count_rows [OF c] c t show ?thesis by blast
qed

section \<open>Decoding byte-string values: properties\<close>

lemma utf8_decode_ignore_total: "\<exists>s. utf8_decode Ignore bs = Inr s"
proof (induction bs rule: length_induct)
  case (1 bs)
  show ?case
  proof (cases bs)
    case Nil
    then show ?thesis by simp
  next
    case (Cons b rest)
    obtain r k where st: "utf8_step b rest = (r, k)" by (cases "utf8_step b rest")
    have "length (drop (k - 1) rest) < length bs" by (simp add: Cons)
    with "1.IH" obtain s where s: "utf8_decode Ignore (drop (k - 1) rest) = Inr s" by blast
    show ?thesis
      using s by (cases r) (simp_all add: Cons st del: utf8_step.simps)
  qed
qed

text \<open>
  Claim C8, at the input where the code departs from it. The bytes 43 61 66 E9 are
  \<open>Caf\<close> followed by a byte that is not valid UTF-8. The lambda that decodes the
  identifier and date columns raises \<open>UnicodeDecodeError\<close> on them, and the
  \<open>apply\<close> over the column raises with it. \<open>decode_if_bytes\<close> returns the text
  \<open>Caf\<close>; it returns a text for every byte string and never raises. Both pass
  every value that is not a byte string through unchanged.
\<close>

theorem strict_decode_aborts:
  "decode_lambda (Bytes [0x43, 0x61, 0x66, 0xE9]) = Inl UnicodeDecodeError \<and>
   series_apply decode_lambda [Bytes [0x41], Bytes [0x43, 0x61, 0x66, 0xE9], Other v] =
     Inl UnicodeDecodeError \<and>
   decode_if_bytes (Bytes [0x43, 0x61, 0x66, 0xE9]) = Inr (Text [67, 97, 102]) \<and>
   series_apply decode_if_bytes [Bytes [0x41], Bytes [0x43, 0x61, 0x66, 0xE9], Other v] =
     Inr [Text [65], Text [67, 97, 102], Other v] \<and>
   (\<exists>s. decode_if_bytes (Bytes bs) = Inr (Text s)) \<and>
   decode_if_bytes (Text t) = Inr (Text t) \<and>
   decode_if_bytes (Other v) = Inr (Other v) \<and>
   decode_lambda (Text t) = Inr (Text t) \<and>
   decode_lambda (Other v) = Inr (Other v)"
proof -
  from utf8_decode_ignore_total [of bs]
  have "\<exists>s. decode_if_bytes (Bytes bs) = Inr (Text s)"
    by (auto simp: decode_if_bytes_def)
  then show ?thesis
    by (simp add: decode_lambda_def decode_if_bytes_def is_continuation_def tail_bits_def)
qed

end
